theory Spec2Isabelle
  imports Main "HOL-Library.Word"
begin

unbundle bit_operations_syntax

section \<open>Data model\<close>

text \<open>
  A shallow embedding of \<^verbatim>\<open>components/core/src/ffi/ir_stream/decoding_methods.cpp\<close>.
  Bytes, tags and the characters of a \<^verbatim>\<open>std::string\<close> are 8-bit words; \<^verbatim>\<open>size_t\<close> is a
  64-bit word (an LP64 target); the C++ integer types are words of their width, read with
  \<open>uint\<close> where the C++ type is unsigned and with \<open>sint\<close> where it is signed.
\<close>

type_synonym byte = "8 word"
type_synonym encoded_tag_t = "8 word"
type_synonym size_t = "64 word"
type_synonym epoch_time_ms_t = "64 word"
type_synonym four_byte_encoded_variable_t = "32 word"
type_synonym eight_byte_encoded_variable_t = "64 word"

datatype IRErrorCode =
    IRErrorCode_Success
  | IRErrorCode_Decode_Error
  | IRErrorCode_Eof
  | IRErrorCode_Corrupted_IR
  | IRErrorCode_Incomplete_IR

text \<open>
  The constants of \<^verbatim>\<open>protocol_constants.hpp\<close> (\<^verbatim>\<open>cProtocol\<close>) and the placeholder
  characters of the logtype (\<^verbatim>\<open>VariablePlaceholder\<close>, \<^verbatim>\<open>cVariablePlaceholderEscapeCharacter\<close>)
  are declared outside this file: they are a parameter of every function that uses them.
\<close>

record cProtocol =
  MagicNumberLength :: nat
  FourByteEncodingMagicNumber :: "byte list"
  EightByteEncodingMagicNumber :: "byte list"
  Eof :: encoded_tag_t
  VarFourByteEncoding :: encoded_tag_t
  VarEightByteEncoding :: encoded_tag_t
  VarStrLenUByte :: encoded_tag_t
  VarStrLenUShort :: encoded_tag_t
  VarStrLenInt :: encoded_tag_t
  LogtypeStrLenUByte :: encoded_tag_t
  LogtypeStrLenUShort :: encoded_tag_t
  LogtypeStrLenInt :: encoded_tag_t
  TimestampVal :: encoded_tag_t
  TimestampDeltaByte :: encoded_tag_t
  TimestampDeltaShort :: encoded_tag_t
  TimestampDeltaInt :: encoded_tag_t
  VariablePlaceholder_Float :: byte
  VariablePlaceholder_Integer :: byte
  VariablePlaceholder_Dictionary :: byte
  cVariablePlaceholderEscapeCharacter :: byte

section \<open>The byte reader\<close>

text \<open>
  Modelled from the spec: \<^verbatim>\<open>ReaderInterface\<close> is not part of this file. The reader
  contract gives \<^verbatim>\<open>try_read_exact(n)\<close>, which reads exactly \<open>n\<close> bytes or fails,
  \<^verbatim>\<open>try_read_string(n, out)\<close>, the same read into a string, and \<^verbatim>\<open>try_read_numeric\<close>,
  which reads the raw bytes of a fixed-width integer. The reader is a buffer and a
  position; a read that fails leaves the position where it was (the contract leaves it
  open). The raw bytes of an integer land in host memory, which is little-endian (the
  source names the value \<^verbatim>\<open>value_little_endian\<close>): the byte read first is the least
  significant one.
\<close>

record ReaderInterface =
  buf :: "byte list"
  pos :: nat

definition try_read_exact_length :: "ReaderInterface \<Rightarrow> nat \<Rightarrow> (byte list \<times> ReaderInterface) option" where
  "try_read_exact_length reader n =
     (if pos reader + n \<le> length (buf reader)
      then Some (take n (drop (pos reader) (buf reader)), reader\<lparr>pos := pos reader + n\<rparr>)
      else None)"

definition try_read_string :: "ReaderInterface \<Rightarrow> size_t \<Rightarrow> (byte list \<times> ReaderInterface) option" where
  "try_read_string reader n = try_read_exact_length reader (unat n)"

fun host_value :: "byte list \<Rightarrow> 'a::len word" where
  "host_value [] = 0"
| "host_value (b # bs) = ucast b OR push_bit 8 (host_value bs)"

definition try_read_numeric_value :: "ReaderInterface \<Rightarrow> ('a::len word \<times> ReaderInterface) option" where
  "try_read_numeric_value reader =
     (case try_read_exact_length reader (LENGTH('a) div 8) of
        None \<Rightarrow> None
      | Some (bytes, reader') \<Rightarrow> Some (host_value bytes, reader'))"

section \<open>Integer codec\<close>

text \<open>
  \<^verbatim>\<open>bswap_16\<close>, \<^verbatim>\<open>bswap_32\<close> and \<^verbatim>\<open>bswap_64\<close> of \<^verbatim>\<open><byteswap.h>\<close>, with the masks and
  shifts of the C library's definitions.
\<close>

definition bswap_16 :: "16 word \<Rightarrow> 16 word" where
  "bswap_16 x = (drop_bit 8 x AND 0xff) OR push_bit 8 (x AND 0xff)"

definition bswap_32 :: "32 word \<Rightarrow> 32 word" where
  "bswap_32 x =
     drop_bit 24 (x AND 0xff000000) OR drop_bit 8 (x AND 0x00ff0000)
     OR push_bit 8 (x AND 0x0000ff00) OR push_bit 24 (x AND 0x000000ff)"

definition bswap_64 :: "64 word \<Rightarrow> 64 word" where
  "bswap_64 x =
     drop_bit 56 (x AND 0xff00000000000000) OR drop_bit 40 (x AND 0x00ff000000000000)
     OR drop_bit 24 (x AND 0x0000ff0000000000) OR drop_bit 8 (x AND 0x000000ff00000000)
     OR push_bit 8 (x AND 0x00000000ff000000) OR push_bit 24 (x AND 0x0000000000ff0000)
     OR push_bit 40 (x AND 0x000000000000ff00) OR push_bit 56 (x AND 0x00000000000000ff)"

text \<open>
  \<^verbatim>\<open>decode_int<integer_t>\<close>: the template parameter is the width of the result word; the
  \<^verbatim>\<open>static_assert\<close> restricts \<^verbatim>\<open>read_size\<close> to 1, 2, 4 and 8. \<open>None\<close> is the return
  value \<^verbatim>\<open>false\<close>.
\<close>

definition decode_int :: "ReaderInterface \<Rightarrow> ('a::len word \<times> ReaderInterface) option" where
  "decode_int reader =
     (case try_read_numeric_value reader of
        None \<Rightarrow> None
      | Some (value_little_endian :: 'a word, reader') \<Rightarrow>
          (let read_size = LENGTH('a) div 8 in
           if read_size = 1 then Some (value_little_endian, reader')
           else if read_size = 2 then Some (ucast (bswap_16 (ucast value_little_endian)), reader')
           else if read_size = 4 then Some (ucast (bswap_32 (ucast value_little_endian)), reader')
           else Some (ucast (bswap_64 (ucast value_little_endian)), reader')))"

section \<open>Tag classifier and field parsers\<close>

text \<open>
  A C++ template parameter \<^verbatim>\<open>encoded_variable_t\<close> is the type variable \<open>'v\<close> of the
  encoded variable's word; \<^verbatim>\<open>is_same_v<encoded_variable_t, eight_byte_encoded_variable_t>\<close>
  is the test \<open>LENGTH('v) = 64\<close>. The result of \<^verbatim>\<open>is_variable_tag\<close> is \<open>None\<close> for
  \<^verbatim>\<open>false\<close> and \<open>Some is_encoded_var\<close> for \<^verbatim>\<open>true\<close>.
\<close>

definition is_variable_tag :: "'v::len itself \<Rightarrow> cProtocol \<Rightarrow> encoded_tag_t \<Rightarrow> bool option" where
  "is_variable_tag T P tag =
     (if tag = VarStrLenUByte P \<or> tag = VarStrLenUShort P \<or> tag = VarStrLenInt P
      then Some False
      else if LENGTH('v) = 64
      then (if tag = VarEightByteEncoding P then Some True else None)
      else (if tag = VarFourByteEncoding P then Some True else None))"

text \<open>
  A parser returns its error code or, for \<^verbatim>\<open>IRErrorCode_Success\<close>, the value of its output
  parameter, together with the reader as the call leaves it. A length is converted to
  \<^verbatim>\<open>size_t\<close> as C++ does: zero-extended from an unsigned type, sign-extended from
  \<^verbatim>\<open>int32_t\<close>.
\<close>

definition parse_logtype ::
  "cProtocol \<Rightarrow> ReaderInterface \<Rightarrow> encoded_tag_t \<Rightarrow> (IRErrorCode + byte list) \<times> ReaderInterface" where
  "parse_logtype P reader encoded_tag =
     (case
        (if encoded_tag = LogtypeStrLenUByte P then
           (case decode_int reader of
              None \<Rightarrow> Inl IRErrorCode_Incomplete_IR
            | Some (len :: 8 word, reader') \<Rightarrow> Inr (ucast len :: size_t, reader'))
         else if encoded_tag = LogtypeStrLenUShort P then
           (case decode_int reader of
              None \<Rightarrow> Inl IRErrorCode_Incomplete_IR
            | Some (len :: 16 word, reader') \<Rightarrow> Inr (ucast len :: size_t, reader'))
         else if encoded_tag = LogtypeStrLenInt P then
           (case decode_int reader of
              None \<Rightarrow> Inl IRErrorCode_Incomplete_IR
            | Some (len :: 32 word, reader') \<Rightarrow> Inr (scast len :: size_t, reader'))
         else Inl IRErrorCode_Corrupted_IR)
      of
        Inl error_code \<Rightarrow> (Inl error_code, reader)
      | Inr (logtype_length, reader') \<Rightarrow>
          (case try_read_string reader' logtype_length of
             None \<Rightarrow> (Inl IRErrorCode_Incomplete_IR, reader')
           | Some (logtype, reader'') \<Rightarrow> (Inr logtype, reader'')))"

definition parse_dictionary_var ::
  "cProtocol \<Rightarrow> ReaderInterface \<Rightarrow> encoded_tag_t \<Rightarrow> (IRErrorCode + byte list) \<times> ReaderInterface" where
  "parse_dictionary_var P reader encoded_tag =
     (case
        (if VarStrLenUByte P = encoded_tag then
           (case decode_int reader of
              None \<Rightarrow> Inl IRErrorCode_Incomplete_IR
            | Some (len :: 8 word, reader') \<Rightarrow> Inr (ucast len :: size_t, reader'))
         else if VarStrLenUShort P = encoded_tag then
           (case decode_int reader of
              None \<Rightarrow> Inl IRErrorCode_Incomplete_IR
            | Some (len :: 16 word, reader') \<Rightarrow> Inr (ucast len :: size_t, reader'))
         else if VarStrLenInt P = encoded_tag then
           (case decode_int reader of
              None \<Rightarrow> Inl IRErrorCode_Incomplete_IR
            | Some (len :: 32 word, reader') \<Rightarrow> Inr (scast len :: size_t, reader'))
         else Inl IRErrorCode_Corrupted_IR)
      of
        Inl error_code \<Rightarrow> (Inl error_code, reader)
      | Inr (var_length, reader') \<Rightarrow>
          (case try_read_string reader' var_length of
             None \<Rightarrow> (Inl IRErrorCode_Incomplete_IR, reader')
           | Some (dict_var, reader'') \<Rightarrow> (Inr dict_var, reader'')))"

definition parse_timestamp ::
  "'v::len itself \<Rightarrow> cProtocol \<Rightarrow> ReaderInterface \<Rightarrow> encoded_tag_t
     \<Rightarrow> (IRErrorCode + epoch_time_ms_t) \<times> ReaderInterface" where
  "parse_timestamp T P reader encoded_tag =
     (if LENGTH('v) = 64 then
        (if TimestampVal P \<noteq> encoded_tag then (Inl IRErrorCode_Corrupted_IR, reader)
         else
           (case decode_int reader of
              None \<Rightarrow> (Inl IRErrorCode_Incomplete_IR, reader)
            | Some (ts :: 64 word, reader') \<Rightarrow> (Inr ts, reader')))
      else
        (if TimestampDeltaByte P = encoded_tag then
           (case decode_int reader of
              None \<Rightarrow> (Inl IRErrorCode_Incomplete_IR, reader)
            | Some (ts_delta :: 8 word, reader') \<Rightarrow> (Inr (scast ts_delta), reader'))
         else if TimestampDeltaShort P = encoded_tag then
           (case decode_int reader of
              None \<Rightarrow> (Inl IRErrorCode_Incomplete_IR, reader)
            | Some (ts_delta :: 16 word, reader') \<Rightarrow> (Inr (scast ts_delta), reader'))
         else if TimestampDeltaInt P = encoded_tag then
           (case decode_int reader of
              None \<Rightarrow> (Inl IRErrorCode_Incomplete_IR, reader)
            | Some (ts_delta :: 32 word, reader') \<Rightarrow> (Inr (scast ts_delta), reader'))
         else (Inl IRErrorCode_Corrupted_IR, reader)))"

section \<open>Message renderer\<close>

text \<open>
  \<^verbatim>\<open>decode_float_var\<close> and \<^verbatim>\<open>decode_integer_var\<close> are declared outside this file: they
  are parameters, and \<open>None\<close> stands for an \<^verbatim>\<open>EncodingException\<close> thrown by them. The
  constructors of \<open>EncodingException\<close> name the message an exception carries.
\<close>

datatype EncodingException =
    TooFewEncodedVars
  | TooFewDictionaryVars
  | UnexpectedEscapeCharacter
  | VariableDecodingFailure

record decode_message_locals =
  next_static_text_begin_pos :: nat
  dictionary_vars_ix :: nat
  encoded_vars_ix :: nat
  message :: "byte list"

text \<open>
  The \<^verbatim>\<open>for\<close> loop of \<^verbatim>\<open>decode_message\<close>, one call for each test of the loop condition;
  the result is the exception thrown or the local variables when the loop ends. The
  \<^verbatim>\<open>switch\<close> is tried in the order of its \<^verbatim>\<open>case\<close> labels.
  \<^verbatim>\<open>message.append(logtype, pos, n)\<close> appends \<open>take n (drop pos logtype)\<close>. The
  positions are natural numbers: \<open>next_static_text_begin_pos\<close> never exceeds \<open>cur_pos\<close>
  and \<open>cur_pos\<close> never exceeds the length of the logtype, so no \<^verbatim>\<open>size_t\<close> operation of
  the loop wraps around.
\<close>

function decode_message_loop ::
  "cProtocol \<Rightarrow> ('v word \<Rightarrow> byte list option) \<Rightarrow> ('v word \<Rightarrow> byte list option)
     \<Rightarrow> byte list \<Rightarrow> 'v::len word list \<Rightarrow> byte list list
     \<Rightarrow> nat \<Rightarrow> decode_message_locals \<Rightarrow> EncodingException + decode_message_locals" where
  "decode_message_loop P decode_float_var decode_integer_var logtype encoded_vars dictionary_vars
       cur_pos l =
     (if cur_pos < length logtype then
        (let c = logtype ! cur_pos;
             static_text = take (cur_pos - next_static_text_begin_pos l)
                             (drop (next_static_text_begin_pos l) logtype)
         in
         if c = VariablePlaceholder_Float P then
           (if encoded_vars_ix l \<ge> length encoded_vars then Inl TooFewEncodedVars
            else
              (case decode_float_var (encoded_vars ! encoded_vars_ix l) of
                 None \<Rightarrow> Inl VariableDecodingFailure
               | Some text \<Rightarrow>
                   decode_message_loop P decode_float_var decode_integer_var logtype
                     encoded_vars dictionary_vars (cur_pos + 1)
                     (l\<lparr>message := message l @ static_text @ text,
                        next_static_text_begin_pos := cur_pos + 1,
                        encoded_vars_ix := encoded_vars_ix l + 1\<rparr>)))
         else if c = VariablePlaceholder_Integer P then
           (if encoded_vars_ix l \<ge> length encoded_vars then Inl TooFewEncodedVars
            else
              (case decode_integer_var (encoded_vars ! encoded_vars_ix l) of
                 None \<Rightarrow> Inl VariableDecodingFailure
               | Some text \<Rightarrow>
                   decode_message_loop P decode_float_var decode_integer_var logtype
                     encoded_vars dictionary_vars (cur_pos + 1)
                     (l\<lparr>message := message l @ static_text @ text,
                        next_static_text_begin_pos := cur_pos + 1,
                        encoded_vars_ix := encoded_vars_ix l + 1\<rparr>)))
         else if c = VariablePlaceholder_Dictionary P then
           (if dictionary_vars_ix l \<ge> length dictionary_vars then Inl TooFewDictionaryVars
            else
              decode_message_loop P decode_float_var decode_integer_var logtype
                encoded_vars dictionary_vars (cur_pos + 1)
                (l\<lparr>message := message l @ static_text @ dictionary_vars ! dictionary_vars_ix l,
                   next_static_text_begin_pos := cur_pos + 1,
                   dictionary_vars_ix := dictionary_vars_ix l + 1\<rparr>))
         else if c = cVariablePlaceholderEscapeCharacter P then
           (if cur_pos = length logtype - 1 then Inl UnexpectedEscapeCharacter
            else
              decode_message_loop P decode_float_var decode_integer_var logtype
                encoded_vars dictionary_vars (cur_pos + 1 + 1)
                (l\<lparr>message := message l @ static_text,
                   next_static_text_begin_pos := cur_pos + 1\<rparr>))
         else
           decode_message_loop P decode_float_var decode_integer_var logtype
             encoded_vars dictionary_vars (cur_pos + 1) l)
      else Inr l)"
  by pat_completeness auto
termination
  by (relation "measure (\<lambda>(P, ff, fi, logtype, E, D, cur_pos, l). length logtype - cur_pos)") auto

declare decode_message_loop.simps [simp del]

definition decode_message ::
  "cProtocol \<Rightarrow> ('v word \<Rightarrow> byte list option) \<Rightarrow> ('v word \<Rightarrow> byte list option)
     \<Rightarrow> byte list \<Rightarrow> 'v::len word list \<Rightarrow> byte list list \<Rightarrow> EncodingException + byte list" where
  "decode_message P decode_float_var decode_integer_var logtype encoded_vars dictionary_vars =
     (case decode_message_loop P decode_float_var decode_integer_var logtype encoded_vars
             dictionary_vars 0
             \<lparr>next_static_text_begin_pos = 0, dictionary_vars_ix = 0, encoded_vars_ix = 0,
              message = []\<rparr>
      of
        Inl e \<Rightarrow> Inl e
      | Inr l \<Rightarrow>
          Inr (if next_static_text_begin_pos l < length logtype
               then message l @ drop (next_static_text_begin_pos l) logtype
               else message l))"

section \<open>Message assembler\<close>

text \<open>
  The \<^verbatim>\<open>while\<close> loop of \<^verbatim>\<open>generic_decode_next_message\<close> that collects the variable
  records, one call for each test of the loop condition. It ends with an error code or
  with the tag that is not a variable tag and the two vectors.
\<close>

function decode_variables_loop ::
  "cProtocol \<Rightarrow> ReaderInterface \<Rightarrow> encoded_tag_t \<Rightarrow> 'v::len word list \<Rightarrow> byte list list
     \<Rightarrow> (IRErrorCode + encoded_tag_t \<times> 'v word list \<times> byte list list) \<times> ReaderInterface" where
  "decode_variables_loop P reader encoded_tag encoded_vars dict_vars =
     (case is_variable_tag TYPE('v) P encoded_tag of
        None \<Rightarrow> (Inr (encoded_tag, encoded_vars, dict_vars), reader)
      | Some is_encoded_var \<Rightarrow>
          (if is_encoded_var then
             (case decode_int reader of
                None \<Rightarrow> (Inl IRErrorCode_Incomplete_IR, reader)
              | Some (encoded_variable, reader') \<Rightarrow>
                  (case try_read_numeric_value reader' of
                     None \<Rightarrow> (Inl IRErrorCode_Incomplete_IR, reader')
                   | Some (encoded_tag', reader'') \<Rightarrow>
                       decode_variables_loop P reader'' encoded_tag'
                         (encoded_vars @ [encoded_variable]) dict_vars))
           else
             (case parse_dictionary_var P reader encoded_tag of
                (Inl error_code, reader') \<Rightarrow> (Inl error_code, reader')
              | (Inr var_str, reader') \<Rightarrow>
                  (case try_read_numeric_value reader' of
                     None \<Rightarrow> (Inl IRErrorCode_Incomplete_IR, reader')
                   | Some (encoded_tag', reader'') \<Rightarrow>
                       decode_variables_loop P reader'' encoded_tag'
                         encoded_vars (dict_vars @ [var_str])))))"
  by pat_completeness auto
termination
proof -
  have exact: "buf r' = buf r \<and> pos r' = pos r + n \<and> pos r' \<le> length (buf r)"
    if "try_read_exact_length r n = Some (bytes, r')" for r r' n bytes
    using that by (auto simp add: try_read_exact_length_def split: if_splits)
  have tag: "buf r' = buf r \<and> pos r' = pos r + 1 \<and> pos r' \<le> length (buf r)"
    if "try_read_numeric_value r = Some (v :: encoded_tag_t, r')" for r r' v
    using that exact by (fastforce simp add: try_read_numeric_value_def split: option.splits)
  have int8: "buf r' = buf r \<and> pos r \<le> pos r'"
    if "decode_int r = Some (v :: 8 word, r')" for r r' v
    using that exact
    by (fastforce simp add: decode_int_def try_read_numeric_value_def Let_def
        split: option.splits if_splits)
  have int16: "buf r' = buf r \<and> pos r \<le> pos r'"
    if "decode_int r = Some (v :: 16 word, r')" for r r' v
    using that exact
    by (fastforce simp add: decode_int_def try_read_numeric_value_def Let_def
        split: option.splits if_splits)
  have int32: "buf r' = buf r \<and> pos r \<le> pos r'"
    if "decode_int r = Some (v :: 32 word, r')" for r r' v
    using that exact
    by (fastforce simp add: decode_int_def try_read_numeric_value_def Let_def
        split: option.splits if_splits)
  have intv: "buf r' = buf r \<and> pos r \<le> pos r'"
    if "decode_int r = Some (v :: 'v::len word, r')" for r r' v
    using that exact
    by (fastforce simp add: decode_int_def try_read_numeric_value_def Let_def
        split: option.splits if_splits)
  have dict: "buf r' = buf r \<and> pos r \<le> pos r'"
    if "parse_dictionary_var P r tag = (Inr var_str, r')" for P r r' tag var_str
    using that
    by (auto simp add: parse_dictionary_var_def try_read_string_def
        split: if_splits option.splits sum.splits dest!: int8 int16 int32 exact)
  show ?thesis
  proof (relation "measure (\<lambda>(P, reader, tag, E, D). length (buf reader) - pos reader)",
      goal_cases)
    case 1
    show ?case by simp
  next
    case (2 P reader tag E D is_enc x2 v reader' x2a tag' reader'')
    then have "decode_int reader = Some (v, reader')"
      and "try_read_numeric_value reader' = Some (tag', reader'')"
      by simp_all
    then show ?case
      using intv [of reader v reader'] tag [of reader' tag' reader''] by auto
  next
    case 3
    then show ?case
      by (auto dest!: dict [OF sym] tag)
  qed
qed

declare decode_variables_loop.simps [simp del]

text \<open>
  \<^verbatim>\<open>generic_decode_next_message\<close> up to the \<^verbatim>\<open>try\<close> block: the first tag, the variable
  records, the logtype record and the timestamp record.
\<close>

definition parse_frame ::
  "cProtocol \<Rightarrow> ReaderInterface
     \<Rightarrow> (IRErrorCode + byte list \<times> 'v::len word list \<times> byte list list \<times> epoch_time_ms_t)
         \<times> ReaderInterface" where
  "parse_frame P reader =
     (case try_read_numeric_value reader of
        None \<Rightarrow> (Inl IRErrorCode_Incomplete_IR, reader)
      | Some (encoded_tag, reader1) \<Rightarrow>
          (if Eof P = encoded_tag then (Inl IRErrorCode_Eof, reader1)
           else
             (case decode_variables_loop P reader1 encoded_tag [] [] of
                (Inl error_code, reader2) \<Rightarrow> (Inl error_code, reader2)
              | (Inr (encoded_tag2, encoded_vars, dict_vars), reader2) \<Rightarrow>
                  (case parse_logtype P reader2 encoded_tag2 of
                     (Inl error_code, reader3) \<Rightarrow> (Inl error_code, reader3)
                   | (Inr logtype, reader3) \<Rightarrow>
                       (case try_read_numeric_value reader3 of
                          None \<Rightarrow> (Inl IRErrorCode_Incomplete_IR, reader3)
                        | Some (encoded_tag3, reader4) \<Rightarrow>
                            (case parse_timestamp TYPE('v) P reader4 encoded_tag3 of
                               (Inl error_code, reader5) \<Rightarrow> (Inl error_code, reader5)
                             | (Inr timestamp, reader5) \<Rightarrow>
                                 (Inr (logtype, encoded_vars, dict_vars, timestamp),
                                  reader5)))))))"

text \<open>
  The whole function: the frame, then the \<^verbatim>\<open>try\<close> block, where an
  \<^verbatim>\<open>EncodingException\<close> becomes \<^verbatim>\<open>IRErrorCode_Decode_Error\<close>. The result for
  \<^verbatim>\<open>IRErrorCode_Success\<close> is the message and the timestamp.
\<close>

definition generic_decode_next_message ::
  "cProtocol \<Rightarrow> ('v::len word \<Rightarrow> byte list option) \<Rightarrow> ('v word \<Rightarrow> byte list option)
     \<Rightarrow> ReaderInterface \<Rightarrow> (IRErrorCode + byte list \<times> epoch_time_ms_t) \<times> ReaderInterface" where
  "generic_decode_next_message P decode_float_var decode_integer_var reader =
     (case parse_frame P reader of
        (Inl error_code, reader') \<Rightarrow> (Inl error_code, reader')
      | (Inr (logtype, encoded_vars, dict_vars, timestamp), reader') \<Rightarrow>
          (case decode_message P decode_float_var decode_integer_var logtype encoded_vars
                  dict_vars of
             Inl e \<Rightarrow> (Inl IRErrorCode_Decode_Error, reader')
           | Inr message' \<Rightarrow> (Inr (message', timestamp), reader')))"

definition four_byte_encoding_decode_next_message ::
  "cProtocol \<Rightarrow> (four_byte_encoded_variable_t \<Rightarrow> byte list option)
     \<Rightarrow> (four_byte_encoded_variable_t \<Rightarrow> byte list option)
     \<Rightarrow> ReaderInterface \<Rightarrow> (IRErrorCode + byte list \<times> epoch_time_ms_t) \<times> ReaderInterface" where
  "four_byte_encoding_decode_next_message = generic_decode_next_message"

definition eight_byte_encoding_decode_next_message ::
  "cProtocol \<Rightarrow> (eight_byte_encoded_variable_t \<Rightarrow> byte list option)
     \<Rightarrow> (eight_byte_encoded_variable_t \<Rightarrow> byte list option)
     \<Rightarrow> ReaderInterface \<Rightarrow> (IRErrorCode + byte list \<times> epoch_time_ms_t) \<times> ReaderInterface" where
  "eight_byte_encoding_decode_next_message = generic_decode_next_message"

section \<open>Preamble: the magic number\<close>

text \<open>
  \<^verbatim>\<open>memcmp\<close> of the C library on the first \<open>n\<close> bytes, compared as unsigned characters.
  The two magic numbers are arrays of \<^verbatim>\<open>MagicNumberLength\<close> bytes, so the comparison stays
  inside both arguments; past the end of an argument, where C leaves the result undefined,
  the model answers that the arguments differ.
\<close>

fun memcmp :: "byte list \<Rightarrow> byte list \<Rightarrow> nat \<Rightarrow> int" where
  "memcmp s1 s2 0 = 0"
| "memcmp (a # s1) (b # s2) (Suc n) = (if a = b then memcmp s1 s2 n else if a < b then - 1 else 1)"
| "memcmp s1 s2 (Suc n) = 1"

definition get_encoding_type :: "cProtocol \<Rightarrow> ReaderInterface \<Rightarrow> (IRErrorCode + bool) \<times> ReaderInterface" where
  "get_encoding_type P reader =
     (case try_read_exact_length reader (MagicNumberLength P) of
        None \<Rightarrow> (Inl IRErrorCode_Incomplete_IR, reader)
      | Some (buffer, reader') \<Rightarrow>
          (if 0 = memcmp buffer (FourByteEncodingMagicNumber P) (MagicNumberLength P)
           then (Inr True, reader')
           else if 0 = memcmp buffer (EightByteEncodingMagicNumber P) (MagicNumberLength P)
           then (Inr False, reader')
           else (Inl IRErrorCode_Corrupted_IR, reader')))"

section \<open>Notions used in the statements\<close>

subsection \<open>What a reader holds\<close>

definition can_supply :: "ReaderInterface \<Rightarrow> nat \<Rightarrow> bool" where
  "can_supply reader n \<longleftrightarrow> pos reader + n \<le> length (buf reader)"

definition next_bytes :: "ReaderInterface \<Rightarrow> nat \<Rightarrow> byte list" where
  "next_bytes reader n = take n (drop (pos reader) (buf reader))"

definition advance :: "ReaderInterface \<Rightarrow> nat \<Rightarrow> ReaderInterface" where
  "advance reader n = reader\<lparr>pos := pos reader + n\<rparr>"

subsection \<open>Big-endian values\<close>

text \<open>
  The value of a byte pattern read as a big-endian unsigned integer, and the two's
  complement reading of an unsigned value of \<open>w\<close> bytes.
\<close>

definition big_endian_value :: "byte list \<Rightarrow> int" where
  "big_endian_value bytes =
     (\<Sum>i<length bytes. uint (bytes ! i) * 256 ^ (length bytes - 1 - i))"

definition twos_complement :: "nat \<Rightarrow> int \<Rightarrow> int" where
  "twos_complement w x = (if x < 2 ^ (8 * w - 1) then x else x - 2 ^ (8 * w))"

subsection \<open>Placeholders of a logtype\<close>

text \<open>
  The number of Float and Integer placeholders of a logtype, the number of its Dictionary
  placeholders, and whether it ends in an escape character with nothing after it; a
  character that follows an escape character is static text and counts for none of them.
\<close>

fun encoded_placeholders :: "cProtocol \<Rightarrow> byte list \<Rightarrow> nat" where
  "encoded_placeholders P [] = 0"
| "encoded_placeholders P [c] =
     (if c = VariablePlaceholder_Float P \<or> c = VariablePlaceholder_Integer P then 1 else 0)"
| "encoded_placeholders P (c # c' # cs) =
     (if c = VariablePlaceholder_Float P \<or> c = VariablePlaceholder_Integer P
      then Suc (encoded_placeholders P (c' # cs))
      else if c = VariablePlaceholder_Dictionary P then encoded_placeholders P (c' # cs)
      else if c = cVariablePlaceholderEscapeCharacter P then encoded_placeholders P cs
      else encoded_placeholders P (c' # cs))"

fun dictionary_placeholders :: "cProtocol \<Rightarrow> byte list \<Rightarrow> nat" where
  "dictionary_placeholders P [] = 0"
| "dictionary_placeholders P [c] =
     (if c = VariablePlaceholder_Float P \<or> c = VariablePlaceholder_Integer P then 0
      else if c = VariablePlaceholder_Dictionary P then 1 else 0)"
| "dictionary_placeholders P (c # c' # cs) =
     (if c = VariablePlaceholder_Float P \<or> c = VariablePlaceholder_Integer P
      then dictionary_placeholders P (c' # cs)
      else if c = VariablePlaceholder_Dictionary P then Suc (dictionary_placeholders P (c' # cs))
      else if c = cVariablePlaceholderEscapeCharacter P then dictionary_placeholders P cs
      else dictionary_placeholders P (c' # cs))"

fun trailing_escape :: "cProtocol \<Rightarrow> byte list \<Rightarrow> bool" where
  "trailing_escape P [] = False"
| "trailing_escape P [c] =
     (if c = VariablePlaceholder_Float P \<or> c = VariablePlaceholder_Integer P
         \<or> c = VariablePlaceholder_Dictionary P
      then False
      else c = cVariablePlaceholderEscapeCharacter P)"
| "trailing_escape P (c # c' # cs) =
     (if c = VariablePlaceholder_Float P \<or> c = VariablePlaceholder_Integer P
         \<or> c = VariablePlaceholder_Dictionary P
      then trailing_escape P (c' # cs)
      else if c = cVariablePlaceholderEscapeCharacter P then trailing_escape P cs
      else trailing_escape P (c' # cs))"

text \<open>
  The Float and Integer placeholders of a logtype in their order, and whether
  \<^verbatim>\<open>decode_float_var\<close> or \<^verbatim>\<open>decode_integer_var\<close> throws on one of the encoded variables
  paired with them: the first placeholder with the first variable, and so on, as far as
  both lists go.
\<close>

fun encoded_placeholder_list :: "cProtocol \<Rightarrow> byte list \<Rightarrow> byte list" where
  "encoded_placeholder_list P [] = []"
| "encoded_placeholder_list P [c] =
     (if c = VariablePlaceholder_Float P \<or> c = VariablePlaceholder_Integer P then [c] else [])"
| "encoded_placeholder_list P (c # c' # cs) =
     (if c = VariablePlaceholder_Float P \<or> c = VariablePlaceholder_Integer P
      then c # encoded_placeholder_list P (c' # cs)
      else if c = VariablePlaceholder_Dictionary P then encoded_placeholder_list P (c' # cs)
      else if c = cVariablePlaceholderEscapeCharacter P then encoded_placeholder_list P cs
      else encoded_placeholder_list P (c' # cs))"

fun variable_decoding_throws ::
  "cProtocol \<Rightarrow> ('v word \<Rightarrow> byte list option) \<Rightarrow> ('v word \<Rightarrow> byte list option)
     \<Rightarrow> byte list \<Rightarrow> 'v::len word list \<Rightarrow> bool" where
  "variable_decoding_throws P ff fi [] E = False"
| "variable_decoding_throws P ff fi (p # ps) [] = False"
| "variable_decoding_throws P ff fi (p # ps) (e # E) =
     ((if p = VariablePlaceholder_Float P then ff e else fi e) = None
      \<or> variable_decoding_throws P ff fi ps E)"

text \<open>
  A fully escaped logtype is written as a list of units: an ordinary character, or an
  escape character followed by the character it escapes.
\<close>

datatype logtype_unit = Ordinary byte | Escaped byte

fun unit_bytes :: "cProtocol \<Rightarrow> logtype_unit \<Rightarrow> byte list" where
  "unit_bytes P (Ordinary b) = [b]"
| "unit_bytes P (Escaped b) = [cVariablePlaceholderEscapeCharacter P, b]"

fun unit_text :: "logtype_unit \<Rightarrow> byte" where
  "unit_text (Ordinary b) = b"
| "unit_text (Escaped b) = b"

definition is_placeholder :: "cProtocol \<Rightarrow> byte \<Rightarrow> bool" where
  "is_placeholder P b \<longleftrightarrow>
     b = VariablePlaceholder_Float P \<or> b = VariablePlaceholder_Integer P
     \<or> b = VariablePlaceholder_Dictionary P"

fun unit_ok :: "cProtocol \<Rightarrow> logtype_unit \<Rightarrow> bool" where
  "unit_ok P (Ordinary b) = (\<not> is_placeholder P b \<and> b \<noteq> cVariablePlaceholderEscapeCharacter P)"
| "unit_ok P (Escaped b) = (is_placeholder P b \<or> b = cVariablePlaceholderEscapeCharacter P)"

subsection \<open>Records of a frame as bytes\<close>

text \<open>
  The wire format of a frame: a variable record is the variable's tag and its payload, the
  encoded variable in big-endian bytes or the length of the string in the width of the tag
  and the string; a logtype record is a length tag, the length and the logtype. What is
  left of the reader's buffer is \<open>remaining\<close>.
\<close>

definition remaining :: "ReaderInterface \<Rightarrow> byte list" where
  "remaining reader = drop (pos reader) (buf reader)"

definition be_bytes :: "nat \<Rightarrow> 'a::len word \<Rightarrow> byte list" where
  "be_bytes w x = map (\<lambda>i. ucast (drop_bit (8 * (w - 1 - i)) x)) [0..<w]"

datatype length_form = LenUByte | LenUShort | LenInt

fun length_bytes :: "length_form \<Rightarrow> nat \<Rightarrow> byte list" where
  "length_bytes LenUByte n = be_bytes 1 (of_nat n :: 8 word)"
| "length_bytes LenUShort n = be_bytes 2 (of_nat n :: 16 word)"
| "length_bytes LenInt n = be_bytes 4 (of_nat n :: 32 word)"

fun length_fits :: "length_form \<Rightarrow> nat \<Rightarrow> bool" where
  "length_fits LenUByte n = (n < 2 ^ 8)"
| "length_fits LenUShort n = (n < 2 ^ 16)"
| "length_fits LenInt n = (n < 2 ^ 31)"

fun var_str_len_tag :: "cProtocol \<Rightarrow> length_form \<Rightarrow> encoded_tag_t" where
  "var_str_len_tag P LenUByte = VarStrLenUByte P"
| "var_str_len_tag P LenUShort = VarStrLenUShort P"
| "var_str_len_tag P LenInt = VarStrLenInt P"

fun logtype_str_len_tag :: "cProtocol \<Rightarrow> length_form \<Rightarrow> encoded_tag_t" where
  "logtype_str_len_tag P LenUByte = LogtypeStrLenUByte P"
| "logtype_str_len_tag P LenUShort = LogtypeStrLenUShort P"
| "logtype_str_len_tag P LenInt = LogtypeStrLenInt P"

definition encoded_variable_tag :: "'v::len itself \<Rightarrow> cProtocol \<Rightarrow> encoded_tag_t" where
  "encoded_variable_tag T P =
     (if LENGTH('v) = 64 then VarEightByteEncoding P else VarFourByteEncoding P)"

datatype 'w variable_record = EncodedVariable 'w | DictionaryVariable length_form "byte list"

fun variable_record_bytes :: "cProtocol \<Rightarrow> 'v::len word variable_record \<Rightarrow> byte list" where
  "variable_record_bytes P (EncodedVariable v) =
     encoded_variable_tag TYPE('v) P # be_bytes (LENGTH('v) div 8) v"
| "variable_record_bytes P (DictionaryVariable form s) =
     var_str_len_tag P form # length_bytes form (length s) @ s"

fun variable_record_ok :: "'w variable_record \<Rightarrow> bool" where
  "variable_record_ok (EncodedVariable v) = True"
| "variable_record_ok (DictionaryVariable form s) = length_fits form (length s)"

fun encoded_variables :: "'w variable_record list \<Rightarrow> 'w list" where
  "encoded_variables [] = []"
| "encoded_variables (EncodedVariable v # recs) = v # encoded_variables recs"
| "encoded_variables (DictionaryVariable form s # recs) = encoded_variables recs"

fun dictionary_variables :: "'w variable_record list \<Rightarrow> byte list list" where
  "dictionary_variables [] = []"
| "dictionary_variables (EncodedVariable v # recs) = dictionary_variables recs"
| "dictionary_variables (DictionaryVariable form s # recs) = s # dictionary_variables recs"

definition logtype_record_bytes :: "cProtocol \<Rightarrow> length_form \<Rightarrow> byte list \<Rightarrow> byte list" where
  "logtype_record_bytes P form logtype =
     logtype_str_len_tag P form # length_bytes form (length logtype) @ logtype"

text \<open>
  The tags that open a frame or a record before the timestamp are pairwise different.
\<close>

definition frame_tags_distinct :: "'v::len itself \<Rightarrow> cProtocol \<Rightarrow> bool" where
  "frame_tags_distinct T P \<longleftrightarrow>
     distinct [Eof P, VarStrLenUByte P, VarStrLenUShort P, VarStrLenInt P,
       encoded_variable_tag T P, LogtypeStrLenUByte P, LogtypeStrLenUShort P,
       LogtypeStrLenInt P]"

subsection \<open>The renderer by recursion on the logtype\<close>

text \<open>
  The pass of \<open>decode_message_loop\<close> over what is left of the logtype and of the two
  vectors: the text it adds and the numbers of encoded and dictionary variables it reads.
\<close>

fun render ::
  "cProtocol \<Rightarrow> ('v word \<Rightarrow> byte list option) \<Rightarrow> ('v word \<Rightarrow> byte list option)
     \<Rightarrow> byte list \<Rightarrow> 'v::len word list \<Rightarrow> byte list list
     \<Rightarrow> EncodingException + byte list \<times> nat \<times> nat" where
  "render P ff fi [] E D = Inr ([], 0, 0)"
| "render P ff fi (c # cs) E D =
     (if c = VariablePlaceholder_Float P then
        (case E of
           [] \<Rightarrow> Inl TooFewEncodedVars
         | e # E' \<Rightarrow>
             (case ff e of
                None \<Rightarrow> Inl VariableDecodingFailure
              | Some text \<Rightarrow>
                  (case render P ff fi cs E' D of
                     Inl x \<Rightarrow> Inl x
                   | Inr (t, ne, nd) \<Rightarrow> Inr (text @ t, Suc ne, nd))))
      else if c = VariablePlaceholder_Integer P then
        (case E of
           [] \<Rightarrow> Inl TooFewEncodedVars
         | e # E' \<Rightarrow>
             (case fi e of
                None \<Rightarrow> Inl VariableDecodingFailure
              | Some text \<Rightarrow>
                  (case render P ff fi cs E' D of
                     Inl x \<Rightarrow> Inl x
                   | Inr (t, ne, nd) \<Rightarrow> Inr (text @ t, Suc ne, nd))))
      else if c = VariablePlaceholder_Dictionary P then
        (case D of
           [] \<Rightarrow> Inl TooFewDictionaryVars
         | d # D' \<Rightarrow>
             (case render P ff fi cs E D' of
                Inl x \<Rightarrow> Inl x
              | Inr (t, ne, nd) \<Rightarrow> Inr (d @ t, ne, Suc nd)))
      else if c = cVariablePlaceholderEscapeCharacter P then
        (case cs of
           [] \<Rightarrow> Inl UnexpectedEscapeCharacter
         | c' # cs' \<Rightarrow>
             (case render P ff fi cs' E D of
                Inl x \<Rightarrow> Inl x
              | Inr (t, ne, nd) \<Rightarrow> Inr (c' # t, ne, nd)))
      else
        (case render P ff fi cs E D of
           Inl x \<Rightarrow> Inl x
         | Inr (t, ne, nd) \<Rightarrow> Inr (c # t, ne, nd)))"

subsection \<open>A protocol table\<close>

text \<open>
  One assignment of the constants, with pairwise different tags, two different magic
  numbers and four different logtype characters, for evaluating the functions on concrete
  input. The statements below are about every table.
\<close>

definition example_protocol :: cProtocol where
  "example_protocol =
     \<lparr>MagicNumberLength = 4,
      FourByteEncodingMagicNumber = [0xFD, 0x2F, 0xB5, 0x29],
      EightByteEncodingMagicNumber = [0xFD, 0x2F, 0xB5, 0x30],
      Eof = 0x00,
      VarFourByteEncoding = 0x18,
      VarEightByteEncoding = 0x19,
      VarStrLenUByte = 0x11,
      VarStrLenUShort = 0x12,
      VarStrLenInt = 0x13,
      LogtypeStrLenUByte = 0x21,
      LogtypeStrLenUShort = 0x22,
      LogtypeStrLenInt = 0x23,
      TimestampVal = 0x30,
      TimestampDeltaByte = 0x31,
      TimestampDeltaShort = 0x32,
      TimestampDeltaInt = 0x33,
      VariablePlaceholder_Float = 0x11,
      VariablePlaceholder_Integer = 0x12,
      VariablePlaceholder_Dictionary = 0x13,
      cVariablePlaceholderEscapeCharacter = 0x5C\<rparr>"

text \<open>
  A stand-in for \<^verbatim>\<open>decode_float_var\<close> and \<^verbatim>\<open>decode_integer_var\<close> on concrete input: the
  low byte of the variable as one character.
\<close>

definition example_decode_var :: "'v::len word \<Rightarrow> byte list option" where
  "example_decode_var v = Some [ucast v]"

text \<open>
  A \<^verbatim>\<open>decode_float_var\<close> and \<^verbatim>\<open>decode_integer_var\<close> that throws on every variable.
\<close>

definition throwing_decode_var :: "'v::len word \<Rightarrow> byte list option" where
  "throwing_decode_var v = None"

section \<open>The integer codec is big-endian\<close>

subsection \<open>Host values and byte swaps, bit by bit\<close>

lemma bit_host_value_iff:
  "bit (host_value bs :: 'a::len word) n \<longleftrightarrow>
     n < LENGTH('a) \<and> n div 8 < length bs \<and> bit (bs ! (n div 8)) (n mod 8)"
proof (induction bs arbitrary: n)
  case Nil
  then show ?case by simp
next
  case (Cons b bs)
  show ?case
  proof (cases "n < 8")
    case True
    then show ?thesis
      by (auto simp add: bit_simps Cons.IH dest: bit_imp_le_length)
  next
    case False
    then have "n div 8 = Suc ((n - 8) div 8)" "n mod 8 = (n - 8) mod 8"
      by (simp_all add: le_div_geq le_mod_geq)
    with False show ?thesis
      by (auto simp add: bit_simps Cons.IH dest: bit_imp_le_length)
  qed
qed

subsection \<open>Values\<close>

lemma uint_host_value:
  assumes "8 * length bs \<le> LENGTH('a::len)"
  shows "uint (host_value bs :: 'a word) = (\<Sum>i<length bs. uint (bs ! i) * 256 ^ i)"
proof -
  have "uint (host_value bs :: 'a word) = horner_sum uint (2 ^ LENGTH(8)) bs"
  proof (rule bit_eqI)
    fix n
    have "n div 8 < length bs \<Longrightarrow> n < LENGTH('a)"
      using assms by (simp add: less_mult_imp_div_less mult.commute order_less_le_trans)
    then show "bit (uint (host_value bs :: 'a word)) n = bit (horner_sum uint ((2::int) ^ LENGTH(8)) bs) n"
      unfolding bit_horner_sum_uint_exp_iff bit_uint_iff bit_host_value_iff by auto
  qed
  then show ?thesis by (simp add: horner_sum_eq_sum atLeast0LessThan)
qed

lemma uint_host_value_rev:
  assumes "8 * length bs \<le> LENGTH('a::len)"
  shows "uint (host_value (rev bs) :: 'a word) = big_endian_value bs"
proof -
  have "uint (host_value (rev bs) :: 'a word) = (\<Sum>i<length bs. uint (rev bs ! i) * 256 ^ i)"
    using assms uint_host_value [of "rev bs", where 'a='a] by simp
  also have "\<dots> = (\<Sum>i<length bs. uint (bs ! (length bs - Suc i)) * 256 ^ i)"
    by (rule sum.cong) (simp_all add: rev_nth)
  also have "\<dots> = (\<Sum>i<length bs. uint (bs ! i) * 256 ^ (length bs - 1 - i))"
    using sum.nat_diff_reindex [of "\<lambda>i. uint (bs ! i) * 256 ^ (length bs - 1 - i)" "length bs"]
    by simp
  finally show ?thesis by (simp add: big_endian_value_def)
qed


lemma mask_consts16: "(0xff :: 16 word) = mask 8"
  by (simp add: mask_eq_exp_minus_1)

lemma mask_consts32:
  "(0xff :: 32 word) = mask 8"
  "(0xff00 :: 32 word) = push_bit 8 (mask 8)"
  "(0xff0000 :: 32 word) = push_bit 16 (mask 8)"
  "(0xff000000 :: 32 word) = push_bit 24 (mask 8)"
  by (simp_all add: mask_eq_exp_minus_1 push_bit_eq_mult)

lemma mask_consts64:
  "(0xff :: 64 word) = mask 8"
  "(0xff00 :: 64 word) = push_bit 8 (mask 8)"
  "(0xff0000 :: 64 word) = push_bit 16 (mask 8)"
  "(0xff000000 :: 64 word) = push_bit 24 (mask 8)"
  "(0xff00000000 :: 64 word) = push_bit 32 (mask 8)"
  "(0xff0000000000 :: 64 word) = push_bit 40 (mask 8)"
  "(0xff000000000000 :: 64 word) = push_bit 48 (mask 8)"
  "(0xff00000000000000 :: 64 word) = push_bit 56 (mask 8)"
  by (simp_all add: mask_eq_exp_minus_1 push_bit_eq_mult)

lemma bit_bswap_16:
  assumes "k < 2" "r < 8"
  shows "bit (bswap_16 x) (8 * k + r) = bit x (8 * (1 - k) + r)"
proof -
  consider "k = 0" | "k = 1" using assms by linarith
  then show ?thesis
    using assms by cases (auto simp add: bswap_16_def mask_consts16 bit_simps add.commute)
qed

lemma bit_bswap_32:
  assumes "k < 4" "r < 8"
  shows "bit (bswap_32 x) (8 * k + r) = bit x (8 * (3 - k) + r)"
proof -
  consider "k = 0" | "k = 1" | "k = 2" | "k = 3" using assms by linarith
  then show ?thesis
    using assms by cases (auto simp add: bswap_32_def mask_consts32 bit_simps add.commute)
qed

lemma bit_bswap_64:
  assumes "k < 8" "r < 8"
  shows "bit (bswap_64 x) (8 * k + r) = bit x (8 * (7 - k) + r)"
proof -
  consider "k = 0" | "k = 1" | "k = 2" | "k = 3" | "k = 4" | "k = 5" | "k = 6" | "k = 7"
    using assms by linarith
  then show ?thesis
    using assms by cases (auto simp add: bswap_64_def mask_consts64 bit_simps add.commute)
qed


lemma bswap_16_host_value:
  assumes "length bs = 2"
  shows "bswap_16 (host_value bs) = host_value (rev bs)"
proof (rule bit_eqI)
  fix n
  assume "possible_bit TYPE(16 word) n"
  then have n: "n < 16" by (simp add: possible_bit_word)
  define k r where "k = n div 8" and "r = n mod 8"
  then have kr: "n = 8 * k + r" "k < 2" "r < 8" using n by auto
  have "(8 * (1 - k) + r) div 8 = 1 - k" "(8 * (1 - k) + r) mod 8 = r" "(8 * k + r) div 8 = k"
    "(8 * k + r) mod 8 = r" "8 * (1 - k) + r < 16" "1 - k < 2"
    using kr by simp_all
  then show "bit (bswap_16 (host_value bs)) n = bit (host_value (rev bs) :: 16 word) n"
    using assms kr by (simp add: bit_bswap_16 bit_host_value_iff rev_nth)
qed

lemma bswap_32_host_value:
  assumes "length bs = 4"
  shows "bswap_32 (host_value bs) = host_value (rev bs)"
proof (rule bit_eqI)
  fix n
  assume "possible_bit TYPE(32 word) n"
  then have n: "n < 32" by (simp add: possible_bit_word)
  define k r where "k = n div 8" and "r = n mod 8"
  then have kr: "n = 8 * k + r" "k < 4" "r < 8" using n by auto
  have "(8 * (3 - k) + r) div 8 = 3 - k" "(8 * (3 - k) + r) mod 8 = r" "(8 * k + r) div 8 = k"
    "(8 * k + r) mod 8 = r" "8 * (3 - k) + r < 32" "3 - k < 4"
    using kr by simp_all
  then show "bit (bswap_32 (host_value bs)) n = bit (host_value (rev bs) :: 32 word) n"
    using assms kr by (simp add: bit_bswap_32 bit_host_value_iff rev_nth)
qed

lemma bswap_64_host_value:
  assumes "length bs = 8"
  shows "bswap_64 (host_value bs) = host_value (rev bs)"
proof (rule bit_eqI)
  fix n
  assume "possible_bit TYPE(64 word) n"
  then have n: "n < 64" by (simp add: possible_bit_word)
  define k r where "k = n div 8" and "r = n mod 8"
  then have kr: "n = 8 * k + r" "k < 8" "r < 8" using n by auto
  have "(8 * (7 - k) + r) div 8 = 7 - k" "(8 * (7 - k) + r) mod 8 = r" "(8 * k + r) div 8 = k"
    "(8 * k + r) mod 8 = r" "8 * (7 - k) + r < 64" "7 - k < 8"
    using kr by simp_all
  then show "bit (bswap_64 (host_value bs)) n = bit (host_value (rev bs) :: 64 word) n"
    using assms kr by (simp add: bit_bswap_64 bit_host_value_iff rev_nth)
qed

lemma sint_twos_complement:
  fixes v :: "'a::len word"
  assumes "LENGTH('a) = 8 * w"
  shows "sint v = twos_complement w (uint v)"
proof -
  define n where "n = LENGTH('a) - Suc 0"
  then have L: "LENGTH('a) = Suc n" by simp
  have w8: "8 * w = Suc n" "8 * w - 1 = n"
    using assms L by simp_all
  have bounds: "0 \<le> uint v" "uint v < 2 ^ Suc n"
    using uint_lt2p [of v] by (simp_all add: L)
  have "(0::int) \<le> 2 ^ n" by simp
  then have neg: "- (2 ^ n) \<le> uint v"
    using uint_ge_0 [of v] by linarith
  have s: "sint v = signed_take_bit n (uint v)"
    by (simp add: sint_uint n_def)
  show ?thesis
  proof (cases "uint v < 2 ^ n")
    case True
    then have "signed_take_bit n (uint v) = uint v"
      using neg by (intro signed_take_bit_int_eq_self) simp_all
    with True show ?thesis
      by (simp add: s twos_complement_def w8)
  next
    case False
    have "take_bit (Suc n) (uint v - 2 ^ Suc n) = take_bit (Suc n) (uint v)"
      by (simp only: take_bit_eq_mod minus_mod_self2)
    then have "signed_take_bit n (uint v) = signed_take_bit n (uint v - 2 ^ Suc n)"
      by (simp add: signed_take_bit_eq_iff_take_bit_eq)
    also have "\<dots> = uint v - 2 ^ Suc n"
      using False bounds by (intro signed_take_bit_int_eq_self) simp_all
    finally show ?thesis
      using False by (simp add: s twos_complement_def w8)
  qed
qed


lemma length_next_bytes: "can_supply reader n \<Longrightarrow> length (next_bytes reader n) = n"
  by (auto simp add: can_supply_def next_bytes_def)

lemma try_read_exact_length_eq:
  "try_read_exact_length reader n =
     (if can_supply reader n then Some (next_bytes reader n, advance reader n) else None)"
  by (simp add: try_read_exact_length_def can_supply_def next_bytes_def advance_def)

lemma rev_single: "length bs = Suc 0 \<Longrightarrow> rev bs = bs"
  by (cases bs) simp_all

lemma decode_int_8:
  "(decode_int reader :: (8 word \<times> ReaderInterface) option) =
     (if can_supply reader 1
      then Some (host_value (rev (next_bytes reader 1)), advance reader 1) else None)"
  by (simp add: decode_int_def try_read_numeric_value_def try_read_exact_length_eq
      rev_single length_next_bytes)

lemma decode_int_16:
  "(decode_int reader :: (16 word \<times> ReaderInterface) option) =
     (if can_supply reader 2
      then Some (host_value (rev (next_bytes reader 2)), advance reader 2) else None)"
  by (simp add: decode_int_def try_read_numeric_value_def try_read_exact_length_eq
      bswap_16_host_value length_next_bytes)

lemma decode_int_32:
  "(decode_int reader :: (32 word \<times> ReaderInterface) option) =
     (if can_supply reader 4
      then Some (host_value (rev (next_bytes reader 4)), advance reader 4) else None)"
  by (simp add: decode_int_def try_read_numeric_value_def try_read_exact_length_eq
      bswap_32_host_value length_next_bytes)

lemma decode_int_64:
  "(decode_int reader :: (64 word \<times> ReaderInterface) option) =
     (if can_supply reader 8
      then Some (host_value (rev (next_bytes reader 8)), advance reader 8) else None)"
  by (simp add: decode_int_def try_read_numeric_value_def try_read_exact_length_eq
      bswap_64_host_value length_next_bytes)



text \<open>
  C5: for each width of 1, 2, 4 and 8 bytes, \<open>decode_int\<close> fails exactly when the reader
  cannot supply that many bytes; otherwise it advances the reader by the width and returns
  the word whose unsigned value is the sum of \<open>byte[i] * 256 ^ (W - 1 - i)\<close> over the
  bytes read, and whose signed value is the two's complement reading of that sum.
\<close>

theorem decode_int_big_endian:
  "(case decode_int reader :: (8 word \<times> ReaderInterface) option of
      None \<Rightarrow> \<not> can_supply reader 1
    | Some (v, reader') \<Rightarrow>
        can_supply reader 1 \<and> reader' = advance reader 1
        \<and> uint v = big_endian_value (next_bytes reader 1)
        \<and> sint v = twos_complement 1 (big_endian_value (next_bytes reader 1)))
   \<and> (case decode_int reader :: (16 word \<times> ReaderInterface) option of
      None \<Rightarrow> \<not> can_supply reader 2
    | Some (v, reader') \<Rightarrow>
        can_supply reader 2 \<and> reader' = advance reader 2
        \<and> uint v = big_endian_value (next_bytes reader 2)
        \<and> sint v = twos_complement 2 (big_endian_value (next_bytes reader 2)))
   \<and> (case decode_int reader :: (32 word \<times> ReaderInterface) option of
      None \<Rightarrow> \<not> can_supply reader 4
    | Some (v, reader') \<Rightarrow>
        can_supply reader 4 \<and> reader' = advance reader 4
        \<and> uint v = big_endian_value (next_bytes reader 4)
        \<and> sint v = twos_complement 4 (big_endian_value (next_bytes reader 4)))
   \<and> (case decode_int reader :: (64 word \<times> ReaderInterface) option of
      None \<Rightarrow> \<not> can_supply reader 8
    | Some (v, reader') \<Rightarrow>
        can_supply reader 8 \<and> reader' = advance reader 8
        \<and> uint v = big_endian_value (next_bytes reader 8)
        \<and> sint v = twos_complement 8 (big_endian_value (next_bytes reader 8)))"
proof (intro conjI)
  show "case decode_int reader :: (8 word \<times> ReaderInterface) option of
      None \<Rightarrow> \<not> can_supply reader 1
    | Some (v, reader') \<Rightarrow>
        can_supply reader 1 \<and> reader' = advance reader 1
        \<and> uint v = big_endian_value (next_bytes reader 1)
        \<and> sint v = twos_complement 1 (big_endian_value (next_bytes reader 1))"
    by (simp add: decode_int_8 sint_twos_complement [where w = 1]
        uint_host_value_rev length_next_bytes)
  show "case decode_int reader :: (16 word \<times> ReaderInterface) option of
      None \<Rightarrow> \<not> can_supply reader 2
    | Some (v, reader') \<Rightarrow>
        can_supply reader 2 \<and> reader' = advance reader 2
        \<and> uint v = big_endian_value (next_bytes reader 2)
        \<and> sint v = twos_complement 2 (big_endian_value (next_bytes reader 2))"
    by (simp add: decode_int_16 sint_twos_complement [where w = 2]
        uint_host_value_rev length_next_bytes)
  show "case decode_int reader :: (32 word \<times> ReaderInterface) option of
      None \<Rightarrow> \<not> can_supply reader 4
    | Some (v, reader') \<Rightarrow>
        can_supply reader 4 \<and> reader' = advance reader 4
        \<and> uint v = big_endian_value (next_bytes reader 4)
        \<and> sint v = twos_complement 4 (big_endian_value (next_bytes reader 4))"
    by (simp add: decode_int_32 sint_twos_complement [where w = 4]
        uint_host_value_rev length_next_bytes)
  show "case decode_int reader :: (64 word \<times> ReaderInterface) option of
      None \<Rightarrow> \<not> can_supply reader 8
    | Some (v, reader') \<Rightarrow>
        can_supply reader 8 \<and> reader' = advance reader 8
        \<and> uint v = big_endian_value (next_bytes reader 8)
        \<and> sint v = twos_complement 8 (big_endian_value (next_bytes reader 8))"
    by (simp add: decode_int_64 sint_twos_complement [where w = 8]
        uint_host_value_rev length_next_bytes)
qed


theorem decode_int_big_endian_witness:
  "(decode_int \<lparr>buf = [0xFF, 0xFE, 0x01, 0x02, 0x03, 0x04, 0x05, 0x06], pos = 0\<rparr>
      :: (16 word \<times> ReaderInterface) option)
     = Some (0xFFFE, \<lparr>buf = [0xFF, 0xFE, 0x01, 0x02, 0x03, 0x04, 0x05, 0x06], pos = 2\<rparr>)
   \<and> uint (0xFFFE :: 16 word) = big_endian_value [0xFF, 0xFE]
   \<and> sint (0xFFFE :: 16 word) = twos_complement 2 (big_endian_value [0xFF, 0xFE])
   \<and> twos_complement 2 (big_endian_value [0xFF, 0xFE]) = - 2"
proof -
  let ?R = "\<lparr>buf = [0xFF, 0xFE, 0x01, 0x02, 0x03, 0x04, 0x05, 0x06], pos = 0\<rparr>"
  have d: "(decode_int ?R :: (16 word \<times> ReaderInterface) option) = Some (0xFFFE, ?R\<lparr>pos := 2\<rparr>)"
    by (simp add: decode_int_def try_read_numeric_value_def try_read_exact_length_def
        bswap_16_def)
  have n: "next_bytes ?R 2 = [0xFF, 0xFE]"
    by (simp add: next_bytes_def)
  have v: "twos_complement 2 (big_endian_value [0xFF, 0xFE]) = - 2"
    by (simp add: twos_complement_def big_endian_value_def)
  have "case decode_int ?R :: (16 word \<times> ReaderInterface) option of
      None \<Rightarrow> \<not> can_supply ?R 2
    | Some (v, reader') \<Rightarrow>
        can_supply ?R 2 \<and> reader' = advance ?R 2
        \<and> uint v = big_endian_value (next_bytes ?R 2)
        \<and> sint v = twos_complement 2 (big_endian_value (next_bytes ?R 2))"
    using decode_int_big_endian [of ?R] by (elim conjE)
  then show ?thesis
    unfolding d n using d v by simp
qed


section \<open>Magic number\<close>

lemma memcmp_eq_0_iff:
  "length s1 = n \<Longrightarrow> length s2 = n \<Longrightarrow> memcmp s1 s2 n = 0 \<longleftrightarrow> s1 = s2"
proof (induction n arbitrary: s1 s2)
  case 0
  then show ?case by simp
next
  case (Suc n)
  then obtain a s1' b s2' where "s1 = a # s1'" "s2 = b # s2'" "length s1' = n" "length s2' = n"
    by (metis length_Suc_conv)
  with Suc.IH [of s1' s2'] show ?case by simp
qed

lemma get_encoding_type_eq:
  assumes "length (FourByteEncodingMagicNumber P) = MagicNumberLength P"
    and "length (EightByteEncodingMagicNumber P) = MagicNumberLength P"
  shows "get_encoding_type P reader =
     (if \<not> can_supply reader (MagicNumberLength P) then (Inl IRErrorCode_Incomplete_IR, reader)
      else if next_bytes reader (MagicNumberLength P) = FourByteEncodingMagicNumber P
      then (Inr True, advance reader (MagicNumberLength P))
      else if next_bytes reader (MagicNumberLength P) = EightByteEncodingMagicNumber P
      then (Inr False, advance reader (MagicNumberLength P))
      else (Inl IRErrorCode_Corrupted_IR, advance reader (MagicNumberLength P)))"
  using assms
  by (simp add: get_encoding_type_def try_read_exact_length_eq memcmp_eq_0_iff length_next_bytes
      eq_commute [of 0])

text \<open>
  C3: with the two magic numbers of the table different and each \<open>MagicNumberLength\<close>
  bytes long, \<open>get_encoding_type\<close> returns Success with \<open>is_four_bytes_encoding = true\<close>
  exactly when the reader supplies that many bytes and they are the four-byte magic
  number, Success with \<open>false\<close> exactly when they are the eight-byte magic number,
  Corrupted exactly for every other prefix, and Incomplete exactly when the reader cannot
  supply that many bytes.
\<close>

theorem get_encoding_type_magic_number:
  assumes "length (FourByteEncodingMagicNumber P) = MagicNumberLength P"
    and "length (EightByteEncodingMagicNumber P) = MagicNumberLength P"
    and "FourByteEncodingMagicNumber P \<noteq> EightByteEncodingMagicNumber P"
  shows "(fst (get_encoding_type P reader) = Inl IRErrorCode_Incomplete_IR
            \<longleftrightarrow> \<not> can_supply reader (MagicNumberLength P))
       \<and> (fst (get_encoding_type P reader) = Inr True
            \<longleftrightarrow> can_supply reader (MagicNumberLength P)
                \<and> next_bytes reader (MagicNumberLength P) = FourByteEncodingMagicNumber P)
       \<and> (fst (get_encoding_type P reader) = Inr False
            \<longleftrightarrow> can_supply reader (MagicNumberLength P)
                \<and> next_bytes reader (MagicNumberLength P) = EightByteEncodingMagicNumber P)
       \<and> (fst (get_encoding_type P reader) = Inl IRErrorCode_Corrupted_IR
            \<longleftrightarrow> can_supply reader (MagicNumberLength P)
                \<and> next_bytes reader (MagicNumberLength P) \<noteq> FourByteEncodingMagicNumber P
                \<and> next_bytes reader (MagicNumberLength P) \<noteq> EightByteEncodingMagicNumber P)"
  using assms(3) by (simp add: get_encoding_type_eq [OF assms(1,2)])

theorem get_encoding_type_magic_number_witness:
  "get_encoding_type example_protocol \<lparr>buf = [0xFD, 0x2F, 0xB5, 0x29, 0x01], pos = 0\<rparr>
     = (Inr True, \<lparr>buf = [0xFD, 0x2F, 0xB5, 0x29, 0x01], pos = 4\<rparr>)
   \<and> can_supply \<lparr>buf = [0xFD, 0x2F, 0xB5, 0x29, 0x01], pos = 0\<rparr>
         (MagicNumberLength example_protocol)
   \<and> next_bytes \<lparr>buf = [0xFD, 0x2F, 0xB5, 0x29, 0x01], pos = 0\<rparr>
         (MagicNumberLength example_protocol)
       = FourByteEncodingMagicNumber example_protocol"
proof -
  let ?R = "\<lparr>buf = [0xFD, 0x2F, 0xB5, 0x29, 0x01], pos = 0\<rparr>"
  have l: "length (FourByteEncodingMagicNumber example_protocol) = MagicNumberLength example_protocol"
    "length (EightByteEncodingMagicNumber example_protocol) = MagicNumberLength example_protocol"
    "FourByteEncodingMagicNumber example_protocol \<noteq> EightByteEncodingMagicNumber example_protocol"
    by (simp_all add: example_protocol_def)
  have e: "get_encoding_type example_protocol ?R
             = (Inr True, \<lparr>buf = [0xFD, 0x2F, 0xB5, 0x29, 0x01], pos = 4\<rparr>)"
    by code_simp
  then have "fst (get_encoding_type example_protocol ?R) = Inr True"
    by simp
  then have "can_supply ?R (MagicNumberLength example_protocol)
      \<and> next_bytes ?R (MagicNumberLength example_protocol)
          = FourByteEncodingMagicNumber example_protocol"
    using get_encoding_type_magic_number [OF l, of ?R] by blast
  with e show ?thesis by blast
qed

section \<open>End of stream and timestamps\<close>

lemma next_bytes_single_can_supply: "next_bytes reader 1 = [t] \<Longrightarrow> can_supply reader 1"
  by (cases "pos reader < length (buf reader)") (simp_all add: next_bytes_def can_supply_def)

lemma read_tag:
  "next_bytes reader 1 = [t] \<Longrightarrow>
     (try_read_numeric_value reader :: (encoded_tag_t \<times> ReaderInterface) option)
       = Some (t, advance reader 1)"
  by (frule next_bytes_single_can_supply)
    (simp add: try_read_numeric_value_def try_read_exact_length_eq)

text \<open>
  C8: when the next byte of the reader is the end-of-stream tag, \<open>decode_next_message\<close> of
  both variants returns Eof and leaves the reader exactly one byte further.
\<close>

theorem decode_next_message_eof:
  assumes "next_bytes reader 1 = [Eof P]"
  shows "four_byte_encoding_decode_next_message P ff4 fi4 reader
           = (Inl IRErrorCode_Eof, advance reader 1)
       \<and> eight_byte_encoding_decode_next_message P ff8 fi8 reader
           = (Inl IRErrorCode_Eof, advance reader 1)"
  by (simp add: four_byte_encoding_decode_next_message_def
      eight_byte_encoding_decode_next_message_def generic_decode_next_message_def
      parse_frame_def read_tag [OF assms])

theorem decode_next_message_eof_witness:
  "next_bytes \<lparr>buf = [0x21, 0x00, 0x30, 0x00, 0x21], pos = 3\<rparr> 1 = [Eof example_protocol]
   \<and> four_byte_encoding_decode_next_message example_protocol (\<lambda>v. Some []) (\<lambda>v. Some [])
         \<lparr>buf = [0x21, 0x00, 0x30, 0x00, 0x21], pos = 3\<rparr>
       = (Inl IRErrorCode_Eof, \<lparr>buf = [0x21, 0x00, 0x30, 0x00, 0x21], pos = 4\<rparr>)
   \<and> eight_byte_encoding_decode_next_message example_protocol (\<lambda>v. Some []) (\<lambda>v. Some [])
         \<lparr>buf = [0x21, 0x00, 0x30, 0x00, 0x21], pos = 3\<rparr>
       = (Inl IRErrorCode_Eof, \<lparr>buf = [0x21, 0x00, 0x30, 0x00, 0x21], pos = 4\<rparr>)"
proof -
  let ?R = "\<lparr>buf = [0x21, 0x00, 0x30, 0x00, 0x21], pos = 3\<rparr>"
  have n: "next_bytes ?R 1 = [Eof example_protocol]"
    by (simp add: next_bytes_def example_protocol_def)
  have a: "advance ?R 1 = \<lparr>buf = [0x21, 0x00, 0x30, 0x00, 0x21], pos = 4\<rparr>"
    by (simp add: advance_def)
  show ?thesis
    using n decode_next_message_eof [OF n, of "\<lambda>v. Some []" "\<lambda>v. Some []" "\<lambda>v. Some []" "\<lambda>v. Some []"]
    unfolding a by blast
qed

lemma sint_decoded:
  fixes v :: "'a::len word"
  assumes "LENGTH('a) = 8 * w" "w = length bs"
  shows "sint (host_value (rev bs) :: 'a word) = twos_complement w (big_endian_value bs)"
  using assms by (simp add: sint_twos_complement [where w = w] uint_host_value_rev)

text \<open>
  C6: in the eight-byte variant \<open>parse_timestamp\<close> returns Corrupted for every tag but
  \<open>TimestampVal\<close>, and on that tag reads eight bytes as a big-endian signed integer. In the
  four-byte variant, with three different delta tags, the tag selects a delta of 1, 2 or 4
  bytes, the timestamp returned is the signed value of the delta (sign-extended to 64
  bits), and every other tag gives Corrupted. On a right tag the result is Success with
  that value and the reader past the payload when the reader supplies the payload, and
  Incomplete with the reader unmoved when it does not.
\<close>

theorem parse_timestamp_variants:
  assumes "distinct [TimestampDeltaByte P, TimestampDeltaShort P, TimestampDeltaInt P]"
  shows "(tag \<noteq> TimestampVal P \<longrightarrow>
            parse_timestamp TYPE(64) P reader tag = (Inl IRErrorCode_Corrupted_IR, reader))
       \<and> (tag = TimestampVal P \<longrightarrow>
            (if can_supply reader 8
             then \<exists>ts. parse_timestamp TYPE(64) P reader tag = (Inr ts, advance reader 8)
                    \<and> sint ts = twos_complement 8 (big_endian_value (next_bytes reader 8))
             else parse_timestamp TYPE(64) P reader tag = (Inl IRErrorCode_Incomplete_IR, reader)))
       \<and> (tag = TimestampDeltaByte P \<longrightarrow>
            (if can_supply reader 1
             then \<exists>ts. parse_timestamp TYPE(32) P reader tag = (Inr ts, advance reader 1)
                    \<and> sint ts = twos_complement 1 (big_endian_value (next_bytes reader 1))
             else parse_timestamp TYPE(32) P reader tag = (Inl IRErrorCode_Incomplete_IR, reader)))
       \<and> (tag = TimestampDeltaShort P \<longrightarrow>
            (if can_supply reader 2
             then \<exists>ts. parse_timestamp TYPE(32) P reader tag = (Inr ts, advance reader 2)
                    \<and> sint ts = twos_complement 2 (big_endian_value (next_bytes reader 2))
             else parse_timestamp TYPE(32) P reader tag = (Inl IRErrorCode_Incomplete_IR, reader)))
       \<and> (tag = TimestampDeltaInt P \<longrightarrow>
            (if can_supply reader 4
             then \<exists>ts. parse_timestamp TYPE(32) P reader tag = (Inr ts, advance reader 4)
                    \<and> sint ts = twos_complement 4 (big_endian_value (next_bytes reader 4))
             else parse_timestamp TYPE(32) P reader tag = (Inl IRErrorCode_Incomplete_IR, reader)))
       \<and> (tag \<notin> {TimestampDeltaByte P, TimestampDeltaShort P, TimestampDeltaInt P} \<longrightarrow>
            parse_timestamp TYPE(32) P reader tag = (Inl IRErrorCode_Corrupted_IR, reader))"
proof (intro conjI impI)
  show "parse_timestamp TYPE(64) P reader tag = (Inl IRErrorCode_Corrupted_IR, reader)"
    if "tag \<noteq> TimestampVal P"
    using that by (auto simp add: parse_timestamp_def)
  show "(if can_supply reader 8
             then \<exists>ts. parse_timestamp TYPE(64) P reader tag = (Inr ts, advance reader 8)
                    \<and> sint ts = twos_complement 8 (big_endian_value (next_bytes reader 8))
             else parse_timestamp TYPE(64) P reader tag = (Inl IRErrorCode_Incomplete_IR, reader))"
    if "tag = TimestampVal P"
    using that assms
    by (simp add: parse_timestamp_def decode_int_64 sint_up_scast is_up sint_decoded
        length_next_bytes)
  show "(if can_supply reader 1
             then \<exists>ts. parse_timestamp TYPE(32) P reader tag = (Inr ts, advance reader 1)
                    \<and> sint ts = twos_complement 1 (big_endian_value (next_bytes reader 1))
             else parse_timestamp TYPE(32) P reader tag = (Inl IRErrorCode_Incomplete_IR, reader))"
    if "tag = TimestampDeltaByte P"
    using that assms
    by (simp add: parse_timestamp_def decode_int_8 sint_up_scast is_up sint_decoded
        length_next_bytes)
  show "(if can_supply reader 2
             then \<exists>ts. parse_timestamp TYPE(32) P reader tag = (Inr ts, advance reader 2)
                    \<and> sint ts = twos_complement 2 (big_endian_value (next_bytes reader 2))
             else parse_timestamp TYPE(32) P reader tag = (Inl IRErrorCode_Incomplete_IR, reader))"
    if "tag = TimestampDeltaShort P"
    using that assms
    by (simp add: parse_timestamp_def decode_int_16 sint_up_scast is_up sint_decoded
        length_next_bytes)
  show "(if can_supply reader 4
             then \<exists>ts. parse_timestamp TYPE(32) P reader tag = (Inr ts, advance reader 4)
                    \<and> sint ts = twos_complement 4 (big_endian_value (next_bytes reader 4))
             else parse_timestamp TYPE(32) P reader tag = (Inl IRErrorCode_Incomplete_IR, reader))"
    if "tag = TimestampDeltaInt P"
    using that assms
    by (simp add: parse_timestamp_def decode_int_32 sint_up_scast is_up sint_decoded
        length_next_bytes)
  show "parse_timestamp TYPE(32) P reader tag = (Inl IRErrorCode_Corrupted_IR, reader)"
    if "tag \<notin> {TimestampDeltaByte P, TimestampDeltaShort P, TimestampDeltaInt P}"
    using that by (auto simp add: parse_timestamp_def)
qed

theorem parse_timestamp_variants_witness:
  "distinct [TimestampDeltaByte example_protocol, TimestampDeltaShort example_protocol,
      TimestampDeltaInt example_protocol]
   \<and> (\<exists>ts. parse_timestamp TYPE(32) example_protocol
             \<lparr>buf = [0x32, 0xFF, 0xFE, 0x00], pos = 1\<rparr> (TimestampDeltaShort example_protocol)
           = (Inr ts, \<lparr>buf = [0x32, 0xFF, 0xFE, 0x00], pos = 3\<rparr>)
         \<and> sint ts = - 2)
   \<and> (\<exists>ts. parse_timestamp TYPE(64) example_protocol
             \<lparr>buf = [0x00, 0x00, 0x01, 0x83, 0x07, 0xF9, 0x5C, 0x00], pos = 0\<rparr>
             (TimestampVal example_protocol)
           = (Inr ts, \<lparr>buf = [0x00, 0x00, 0x01, 0x83, 0x07, 0xF9, 0x5C, 0x00], pos = 8\<rparr>)
         \<and> sint ts = 0x18307F95C00)
   \<and> parse_timestamp TYPE(32) example_protocol
         \<lparr>buf = [0x33, 0xFF, 0xFE, 0x00], pos = 1\<rparr> (TimestampDeltaInt example_protocol)
       = (Inl IRErrorCode_Incomplete_IR, \<lparr>buf = [0x33, 0xFF, 0xFE, 0x00], pos = 1\<rparr>)"
proof -
  let ?R = "\<lparr>buf = [0x32, 0xFF, 0xFE, 0x00], pos = 1\<rparr>"
  let ?S = "\<lparr>buf = [0x00, 0x00, 0x01, 0x83, 0x07, 0xF9, 0x5C, 0x00], pos = 0\<rparr>"
  let ?T = "\<lparr>buf = [0x33, 0xFF, 0xFE, 0x00], pos = 1\<rparr>"
  have d: "distinct [TimestampDeltaByte example_protocol, TimestampDeltaShort example_protocol,
      TimestampDeltaInt example_protocol]"
    by (simp add: example_protocol_def)
  have r: "can_supply ?R 2" "advance ?R 2 = \<lparr>buf = [0x32, 0xFF, 0xFE, 0x00], pos = 3\<rparr>"
    "twos_complement 2 (big_endian_value (next_bytes ?R 2)) = - 2"
    by (simp_all add: can_supply_def advance_def next_bytes_def twos_complement_def
        big_endian_value_def)
  have s: "can_supply ?S 8"
    "advance ?S 8 = \<lparr>buf = [0x00, 0x00, 0x01, 0x83, 0x07, 0xF9, 0x5C, 0x00], pos = 8\<rparr>"
    "twos_complement 8 (big_endian_value (next_bytes ?S 8)) = 0x18307F95C00"
    by (simp_all add: can_supply_def advance_def next_bytes_def twos_complement_def
        big_endian_value_def)
  have t: "\<not> can_supply ?T 4"
    by (simp add: can_supply_def)
  have "if can_supply ?R 2
      then \<exists>ts. parse_timestamp TYPE(32) example_protocol ?R (TimestampDeltaShort example_protocol)
               = (Inr ts, advance ?R 2)
             \<and> sint ts = twos_complement 2 (big_endian_value (next_bytes ?R 2))
      else parse_timestamp TYPE(32) example_protocol ?R (TimestampDeltaShort example_protocol)
             = (Inl IRErrorCode_Incomplete_IR, ?R)"
    using parse_timestamp_variants [OF d, of "TimestampDeltaShort example_protocol" ?R]
    by blast
  then have short: "\<exists>ts. parse_timestamp TYPE(32) example_protocol ?R
               (TimestampDeltaShort example_protocol) = (Inr ts, advance ?R 2)
             \<and> sint ts = twos_complement 2 (big_endian_value (next_bytes ?R 2))"
    by (simp only: r(1) if_True)
  have "if can_supply ?S 8
      then \<exists>ts. parse_timestamp TYPE(64) example_protocol ?S (TimestampVal example_protocol)
               = (Inr ts, advance ?S 8)
             \<and> sint ts = twos_complement 8 (big_endian_value (next_bytes ?S 8))
      else parse_timestamp TYPE(64) example_protocol ?S (TimestampVal example_protocol)
             = (Inl IRErrorCode_Incomplete_IR, ?S)"
    using parse_timestamp_variants [OF d, of "TimestampVal example_protocol" ?S]
    by blast
  then have abs: "\<exists>ts. parse_timestamp TYPE(64) example_protocol ?S
               (TimestampVal example_protocol) = (Inr ts, advance ?S 8)
             \<and> sint ts = twos_complement 8 (big_endian_value (next_bytes ?S 8))"
    by (simp only: s(1) if_True)
  have "if can_supply ?T 4
      then \<exists>ts. parse_timestamp TYPE(32) example_protocol ?T (TimestampDeltaInt example_protocol)
               = (Inr ts, advance ?T 4)
             \<and> sint ts = twos_complement 4 (big_endian_value (next_bytes ?T 4))
      else parse_timestamp TYPE(32) example_protocol ?T (TimestampDeltaInt example_protocol)
             = (Inl IRErrorCode_Incomplete_IR, ?T)"
    using parse_timestamp_variants [OF d, of "TimestampDeltaInt example_protocol" ?T]
    by blast
  then have missing: "parse_timestamp TYPE(32) example_protocol ?T
      (TimestampDeltaInt example_protocol) = (Inl IRErrorCode_Incomplete_IR, ?T)"
    by (simp only: t if_False)
  from short abs missing d show ?thesis
    unfolding r s by blast
qed

section \<open>Signed lengths\<close>

lemma unat_scast_negative:
  fixes w :: "32 word"
  assumes "sint w < 0"
  shows "unat (scast w :: 64 word) = nat (2 ^ 64 + sint w)"
proof -
  have "- (2 ^ 31) \<le> sint w"
    using sint_ge [of w] by simp
  then have "(sint w + 2 ^ 64) mod 2 ^ 64 = sint w + 2 ^ 64"
    using assms by (intro mod_pos_pos_trivial) simp_all
  moreover have "(sint w + 2 ^ 64) mod 2 ^ 64 = sint w mod 2 ^ 64"
    by (simp only: mod_add_self2)
  ultimately have "sint w mod 2 ^ 64 = sint w + 2 ^ 64"
    by (simp only:)
  moreover have "uint (scast w :: 64 word) = sint w mod 2 ^ 64"
    by (simp only: scast_eq uint_word_of_int len_bit0 len_num1) simp
  ultimately have "uint (scast w :: 64 word) = sint w + 2 ^ 64"
    by (simp only:)
  then have "nat (uint (scast w :: 64 word)) = nat (2 ^ 64 + sint w)"
    by (simp only: add.commute [of "sint w"])
  then show ?thesis
    by (simp only: unat_eq_nat_uint)
qed

lemma try_read_string_eq:
  "try_read_string reader n =
     (if can_supply reader (unat n) then Some (next_bytes reader (unat n), advance reader (unat n))
      else None)"
  by (simp add: try_read_string_def try_read_exact_length_eq)

text \<open>
  C2, as the code has it: when the tag is the signed 32-bit length tag (different from the
  two unsigned length tags) and the four bytes that follow are a negative big-endian value
  \<open>v\<close>, \<open>parse_logtype\<close> and \<open>parse_dictionary_var\<close> convert the length to the unsigned
  count \<open>2 ^ 64 + v\<close>, which is at least \<open>2 ^ 64 - 2 ^ 31\<close>; they return Incomplete when the
  reader does not hold that many further bytes and the bytes otherwise, and never
  Corrupted.
\<close>

theorem signed_length_negative:
  assumes "LogtypeStrLenInt P \<notin> {LogtypeStrLenUByte P, LogtypeStrLenUShort P}"
    and "VarStrLenInt P \<notin> {VarStrLenUByte P, VarStrLenUShort P}"
    and "can_supply reader 4"
    and "twos_complement 4 (big_endian_value (next_bytes reader 4)) < 0"
    and "n = nat (2 ^ 64 + twos_complement 4 (big_endian_value (next_bytes reader 4)))"
  shows "2 ^ 64 - 2 ^ 31 \<le> n
       \<and> parse_logtype P reader (LogtypeStrLenInt P)
           = (if can_supply (advance reader 4) n
              then (Inr (next_bytes (advance reader 4) n), advance (advance reader 4) n)
              else (Inl IRErrorCode_Incomplete_IR, advance reader 4))
       \<and> parse_dictionary_var P reader (VarStrLenInt P)
           = (if can_supply (advance reader 4) n
              then (Inr (next_bytes (advance reader 4) n), advance (advance reader 4) n)
              else (Inl IRErrorCode_Incomplete_IR, advance reader 4))
       \<and> fst (parse_logtype P reader (LogtypeStrLenInt P)) \<noteq> Inl IRErrorCode_Corrupted_IR
       \<and> fst (parse_dictionary_var P reader (VarStrLenInt P)) \<noteq> Inl IRErrorCode_Corrupted_IR"
proof -
  define w :: "32 word" where "w = host_value (rev (next_bytes reader 4))"
  have s: "sint w = twos_complement 4 (big_endian_value (next_bytes reader 4))"
    unfolding w_def using assms(3)
    by (simp add: sint_twos_complement [where w = 4] uint_host_value_rev length_next_bytes)
  then have neg: "sint w < 0"
    using assms(4) by simp
  have n: "unat (scast w :: 64 word) = n"
    using unat_scast_negative [OF neg] s assms(5) by simp
  have "- (2 ^ 31) \<le> sint w"
    using sint_ge [of w] by simp
  then have bound: "2 ^ 64 - 2 ^ 31 \<le> n"
    using s assms(5) by simp
  have d: "(decode_int reader :: (32 word \<times> ReaderInterface) option) = Some (w, advance reader 4)"
    using assms(3) by (simp add: decode_int_32 w_def)
  have l: "parse_logtype P reader (LogtypeStrLenInt P)
           = (if can_supply (advance reader 4) n
              then (Inr (next_bytes (advance reader 4) n), advance (advance reader 4) n)
              else (Inl IRErrorCode_Incomplete_IR, advance reader 4))"
    using assms(1) by (auto simp add: parse_logtype_def d try_read_string_eq n)
  have v: "parse_dictionary_var P reader (VarStrLenInt P)
           = (if can_supply (advance reader 4) n
              then (Inr (next_bytes (advance reader 4) n), advance (advance reader 4) n)
              else (Inl IRErrorCode_Incomplete_IR, advance reader 4))"
    using assms(2) by (auto simp add: parse_dictionary_var_def d try_read_string_eq n)
  show ?thesis
    using bound by (simp add: l v)
qed

theorem signed_length_negative_witness:
  "LogtypeStrLenInt example_protocol
     \<notin> {LogtypeStrLenUByte example_protocol, LogtypeStrLenUShort example_protocol}
   \<and> VarStrLenInt example_protocol
     \<notin> {VarStrLenUByte example_protocol, VarStrLenUShort example_protocol}
   \<and> can_supply \<lparr>buf = [0xFF, 0xFF, 0xFF, 0xFE, 0x41, 0x42], pos = 0\<rparr> 4
   \<and> twos_complement 4 (big_endian_value
         (next_bytes \<lparr>buf = [0xFF, 0xFF, 0xFF, 0xFE, 0x41, 0x42], pos = 0\<rparr> 4)) = - 2
   \<and> parse_logtype example_protocol \<lparr>buf = [0xFF, 0xFF, 0xFF, 0xFE, 0x41, 0x42], pos = 0\<rparr>
         (LogtypeStrLenInt example_protocol)
       = (Inl IRErrorCode_Incomplete_IR,
          \<lparr>buf = [0xFF, 0xFF, 0xFF, 0xFE, 0x41, 0x42], pos = 4\<rparr>)
   \<and> parse_dictionary_var example_protocol
         \<lparr>buf = [0xFF, 0xFF, 0xFF, 0xFE, 0x41, 0x42], pos = 0\<rparr>
         (VarStrLenInt example_protocol)
       = (Inl IRErrorCode_Incomplete_IR,
          \<lparr>buf = [0xFF, 0xFF, 0xFF, 0xFE, 0x41, 0x42], pos = 4\<rparr>)"
proof -
  let ?R = "\<lparr>buf = [0xFF, 0xFF, 0xFF, 0xFE, 0x41, 0x42], pos = 0\<rparr>"
  have t: "LogtypeStrLenInt example_protocol
      \<notin> {LogtypeStrLenUByte example_protocol, LogtypeStrLenUShort example_protocol}"
    "VarStrLenInt example_protocol
      \<notin> {VarStrLenUByte example_protocol, VarStrLenUShort example_protocol}"
    by (simp_all add: example_protocol_def)
  have c: "can_supply ?R 4"
    by (simp add: can_supply_def)
  have v: "twos_complement 4 (big_endian_value (next_bytes ?R 4)) = - 2"
    by (simp add: next_bytes_def twos_complement_def big_endian_value_def)
  then have neg: "twos_complement 4 (big_endian_value (next_bytes ?R 4)) < 0"
    by simp
  have n: "(18446744073709551614 :: nat)
      = nat (2 ^ 64 + twos_complement 4 (big_endian_value (next_bytes ?R 4)))"
    unfolding v by simp
  have a: "advance ?R 4 = \<lparr>buf = [0xFF, 0xFF, 0xFF, 0xFE, 0x41, 0x42], pos = 4\<rparr>"
    by (simp add: advance_def)
  have no: "\<not> can_supply (advance ?R 4) 18446744073709551614"
    by (simp add: advance_def can_supply_def)
  show ?thesis
    using signed_length_negative [OF t c neg n] t c v no unfolding a by simp
qed

text \<open>
  C2 as stated fails: the length bytes \<open>FF FF FF FF\<close> are the value \<open>-1\<close>, and both parsers
  return Incomplete, not Corrupted.
\<close>

lemma negative_length_value:
  "twos_complement 4 (big_endian_value [0xFF, 0xFF, 0xFF, 0xFF]) = - 1"
  by (simp add: twos_complement_def big_endian_value_def)

lemma negative_length_decoded:
  "(decode_int \<lparr>buf = [0xFF, 0xFF, 0xFF, 0xFF, 0x41], pos = 0\<rparr>
      :: (32 word \<times> ReaderInterface) option)
     = Some (- 1, \<lparr>buf = [0xFF, 0xFF, 0xFF, 0xFF, 0x41], pos = 4\<rparr>)"
  by (simp add: decode_int_def try_read_numeric_value_def try_read_exact_length_def bswap_32_def)

lemma negative_length_read:
  "try_read_string \<lparr>buf = [0xFF, 0xFF, 0xFF, 0xFF, 0x41], pos = 4\<rparr> (- 1) = None"
  by (simp add: try_read_string_def try_read_exact_length_def unsigned_minus_1_eq_mask
      mask_eq_exp_minus_1)

theorem signed_length_negative_counterexample:
  "twos_complement 4 (big_endian_value [0xFF, 0xFF, 0xFF, 0xFF]) = - 1
   \<and> parse_logtype example_protocol \<lparr>buf = [0xFF, 0xFF, 0xFF, 0xFF, 0x41], pos = 0\<rparr>
         (LogtypeStrLenInt example_protocol)
       = (Inl IRErrorCode_Incomplete_IR, \<lparr>buf = [0xFF, 0xFF, 0xFF, 0xFF, 0x41], pos = 4\<rparr>)
   \<and> parse_dictionary_var example_protocol \<lparr>buf = [0xFF, 0xFF, 0xFF, 0xFF, 0x41], pos = 0\<rparr>
         (VarStrLenInt example_protocol)
       = (Inl IRErrorCode_Incomplete_IR, \<lparr>buf = [0xFF, 0xFF, 0xFF, 0xFF, 0x41], pos = 4\<rparr>)"
  by (simp add: negative_length_value negative_length_decoded negative_length_read parse_logtype_def parse_dictionary_var_def example_protocol_def)

section \<open>Tags out of place\<close>

lemma parse_logtype_other_tag:
  "tag \<notin> {LogtypeStrLenUByte P, LogtypeStrLenUShort P, LogtypeStrLenInt P} \<Longrightarrow>
     parse_logtype P reader tag = (Inl IRErrorCode_Corrupted_IR, reader)"
  by (simp add: parse_logtype_def)

lemma decode_variables_loop_other_tag:
  "is_variable_tag TYPE('v::len) P tag = None \<Longrightarrow>
     decode_variables_loop P reader tag (E :: 'v word list) D = (Inr (tag, E, D), reader)"
  by (subst decode_variables_loop.simps) simp

subsection \<open>Records read back from their bytes\<close>

text \<open>
  The parsers on a reader whose remaining bytes begin with the bytes of a record: the
  integer codec reads back a big-endian integer, the string parsers a length and its
  string, and the loop over the variable records all the records up to the first tag that
  is not a variable tag, which it returns.
\<close>

lemma length_be_bytes: "length (be_bytes w x) = w"
  by (simp add: be_bytes_def)

lemma host_value_rev_be_bytes:
  fixes x :: "'a::len word"
  assumes "LENGTH('a) = 8 * w"
  shows "host_value (rev (be_bytes w x)) = x"
proof (rule bit_eqI)
  fix n
  assume "possible_bit TYPE('a word) n"
  then have n: "n < 8 * w"
    using assms by (simp add: possible_bit_word)
  then have k: "n div 8 < w"
    by (simp add: less_mult_imp_div_less mult.commute)
  have "rev (be_bytes w x) ! (n div 8) = ucast (drop_bit (8 * (n div 8)) x)"
    using k by (simp add: rev_nth length_be_bytes) (simp add: be_bytes_def)
  moreover have "8 * (n div 8) + n mod 8 = n"
    by simp
  moreover have "n mod 8 < Suc (Suc (Suc (Suc (Suc (Suc (Suc (Suc 0)))))))"
    by presburger
  ultimately show "bit (host_value (rev (be_bytes w x)) :: 'a word) n = bit x n"
    using n k assms
    by (simp add: bit_host_value_iff length_be_bytes bit_simps add.commute)
qed

lemma remaining_advance: "remaining (advance reader n) = drop n (remaining reader)"
  by (simp add: remaining_def advance_def add.commute)

lemma advance_advance: "advance (advance reader m) n = advance reader (m + n)"
  by (simp add: advance_def add.assoc)

lemma remaining_append:
  assumes "remaining reader = xs @ ys" "xs \<noteq> [] \<or> pos reader \<le> length (buf reader)"
  shows "can_supply reader (length xs) \<and> next_bytes reader (length xs) = xs"
proof -
  have "length xs \<le> length (remaining reader)"
    using assms(1) by simp
  then have "pos reader + length xs \<le> length (buf reader)"
    using assms by (cases xs) (auto simp add: remaining_def)
  moreover have "take (length xs) (remaining reader) = xs"
    using assms(1) by simp
  ultimately show ?thesis
    by (simp add: can_supply_def next_bytes_def remaining_def)
qed

lemma pos_advance_remaining:
  "remaining reader = xs @ ys \<Longrightarrow> xs \<noteq> [] \<Longrightarrow>
     pos (advance reader (length xs)) \<le> length (buf (advance reader (length xs)))"
  using remaining_append [of reader xs ys] by (simp add: can_supply_def advance_def)

lemma decode_int_be_bytes_8:
  "remaining reader = be_bytes 1 (x :: 8 word) @ rest \<Longrightarrow>
     decode_int reader = Some (x, advance reader 1)"
  using remaining_append [of reader "be_bytes 1 x" rest]
    host_value_rev_be_bytes [of 1 x]
  by (simp add: decode_int_8 length_be_bytes) (simp add: be_bytes_def)

lemma decode_int_be_bytes_16:
  "remaining reader = be_bytes 2 (x :: 16 word) @ rest \<Longrightarrow>
     decode_int reader = Some (x, advance reader 2)"
  using remaining_append [of reader "be_bytes 2 x" rest]
    host_value_rev_be_bytes [of 2 x]
  by (simp add: decode_int_16 length_be_bytes) (simp add: be_bytes_def)

lemma decode_int_be_bytes_32:
  "remaining reader = be_bytes 4 (x :: 32 word) @ rest \<Longrightarrow>
     decode_int reader = Some (x, advance reader 4)"
  using remaining_append [of reader "be_bytes 4 x" rest]
    host_value_rev_be_bytes [of 4 x]
  by (simp add: decode_int_32 length_be_bytes) (simp add: be_bytes_def)

lemma decode_int_be_bytes_64:
  "remaining reader = be_bytes 8 (x :: 64 word) @ rest \<Longrightarrow>
     decode_int reader = Some (x, advance reader 8)"
  using remaining_append [of reader "be_bytes 8 x" rest]
    host_value_rev_be_bytes [of 8 x]
  by (simp add: decode_int_64 length_be_bytes) (simp add: be_bytes_def)

lemma unat_length_ubyte:
  assumes "n < 2 ^ 8"
  shows "unat (ucast (of_nat n :: 8 word) :: size_t) = n"
proof -
  have "unat (of_nat n :: 8 word) = n"
    using assms by (simp add: unat_of_nat)
  moreover have "n < 2 ^ 64"
    using assms by (rule less_trans) simp
  ultimately show ?thesis
    by (simp add: unsigned_ucast_eq take_bit_nat_eq_self)
qed

lemma unat_length_ushort:
  assumes "n < 2 ^ 16"
  shows "unat (ucast (of_nat n :: 16 word) :: size_t) = n"
proof -
  have "unat (of_nat n :: 16 word) = n"
    using assms by (simp add: unat_of_nat)
  moreover have "n < 2 ^ 64"
    using assms by (rule less_trans) simp
  ultimately show ?thesis
    by (simp add: unsigned_ucast_eq take_bit_nat_eq_self)
qed

lemma unat_length_int:
  assumes "n < 2 ^ 31"
  shows "unat (scast (of_nat n :: 32 word) :: size_t) = n"
proof -
  have "int n < int (2 ^ 31)"
    using assms by (simp only: of_nat_less_iff)
  then have "int n < 2 ^ 31"
    by simp
  then have "signed_take_bit 31 (int n) = int n"
    by (intro signed_take_bit_int_eq_self) simp_all
  then have "sint (of_nat n :: 32 word) = int n"
    by (simp add: signed_of_nat)
  then have "(scast (of_nat n :: 32 word) :: size_t) = word_of_int (int n)"
    by (simp only: scast_eq)
  then have "(scast (of_nat n :: 32 word) :: size_t) = of_nat n"
    by simp
  moreover have "n < 2 ^ 64"
    using assms by (rule less_trans) simp
  ultimately show ?thesis
    by (simp add: unat_of_nat)
qed

lemma try_read_string_remaining:
  assumes "remaining reader = s @ rest" "pos reader \<le> length (buf reader)" "unat n = length s"
  shows "try_read_string reader n = Some (s, advance reader (length s))"
  using remaining_append [of reader s rest] assms
  by (simp add: try_read_string_eq)

lemma read_length_then_string:
  assumes "remaining reader = bs @ s @ rest" "bs \<noteq> []" "unat n = length s"
  shows "try_read_string (advance reader (length bs)) n
           = Some (s, advance reader (length bs + length s))"
proof -
  have "remaining (advance reader (length bs)) = s @ rest"
    using assms(1) by (simp add: remaining_advance)
  moreover have "pos (advance reader (length bs)) \<le> length (buf (advance reader (length bs)))"
    using assms(1,2) by (rule pos_advance_remaining)
  ultimately show ?thesis
    using assms(3) by (simp add: try_read_string_remaining advance_advance)
qed

lemma parse_dictionary_var_record:
  assumes "distinct [VarStrLenUByte P, VarStrLenUShort P, VarStrLenInt P]"
    and "length_fits form (length s)"
    and "remaining reader = length_bytes form (length s) @ s @ rest"
  shows "parse_dictionary_var P reader (var_str_len_tag P form)
           = (Inr s, advance reader (length (length_bytes form (length s)) + length s))"
proof (cases form)
  case LenUByte
  with assms have r: "remaining reader = be_bytes 1 (of_nat (length s) :: 8 word) @ s @ rest"
    and n: "unat (ucast (of_nat (length s) :: 8 word) :: size_t) = length s"
    by (simp_all add: unat_length_ubyte)
  from read_length_then_string [OF r _ n] decode_int_be_bytes_8 [OF r] LenUByte
  show ?thesis
    by (auto simp add: parse_dictionary_var_def length_be_bytes)
      (simp_all add: be_bytes_def)
next
  case LenUShort
  with assms have r: "remaining reader = be_bytes 2 (of_nat (length s) :: 16 word) @ s @ rest"
    and n: "unat (ucast (of_nat (length s) :: 16 word) :: size_t) = length s"
    by (simp_all add: unat_length_ushort)
  from read_length_then_string [OF r _ n] decode_int_be_bytes_16 [OF r] LenUShort assms(1)
  show ?thesis
    by (auto simp add: parse_dictionary_var_def length_be_bytes)
      (simp_all add: be_bytes_def)
next
  case LenInt
  with assms have r: "remaining reader = be_bytes 4 (of_nat (length s) :: 32 word) @ s @ rest"
    and n: "unat (scast (of_nat (length s) :: 32 word) :: size_t) = length s"
    by (simp_all add: unat_length_int)
  from read_length_then_string [OF r _ n] decode_int_be_bytes_32 [OF r] LenInt assms(1)
  show ?thesis
    by (auto simp add: parse_dictionary_var_def length_be_bytes)
      (simp_all add: be_bytes_def)
qed

lemma parse_logtype_record:
  assumes "distinct [LogtypeStrLenUByte P, LogtypeStrLenUShort P, LogtypeStrLenInt P]"
    and "length_fits form (length s)"
    and "remaining reader = length_bytes form (length s) @ s @ rest"
  shows "parse_logtype P reader (logtype_str_len_tag P form)
           = (Inr s, advance reader (length (length_bytes form (length s)) + length s))"
proof (cases form)
  case LenUByte
  with assms have r: "remaining reader = be_bytes 1 (of_nat (length s) :: 8 word) @ s @ rest"
    and n: "unat (ucast (of_nat (length s) :: 8 word) :: size_t) = length s"
    by (simp_all add: unat_length_ubyte)
  from read_length_then_string [OF r _ n] decode_int_be_bytes_8 [OF r] LenUByte
  show ?thesis
    by (auto simp add: parse_logtype_def length_be_bytes)
      (simp_all add: be_bytes_def)
next
  case LenUShort
  with assms have r: "remaining reader = be_bytes 2 (of_nat (length s) :: 16 word) @ s @ rest"
    and n: "unat (ucast (of_nat (length s) :: 16 word) :: size_t) = length s"
    by (simp_all add: unat_length_ushort)
  from read_length_then_string [OF r _ n] decode_int_be_bytes_16 [OF r] LenUShort assms(1)
  show ?thesis
    by (auto simp add: parse_logtype_def length_be_bytes)
      (simp_all add: be_bytes_def)
next
  case LenInt
  with assms have r: "remaining reader = be_bytes 4 (of_nat (length s) :: 32 word) @ s @ rest"
    and n: "unat (scast (of_nat (length s) :: 32 word) :: size_t) = length s"
    by (simp_all add: unat_length_int)
  from read_length_then_string [OF r _ n] decode_int_be_bytes_32 [OF r] LenInt assms(1)
  show ?thesis
    by (auto simp add: parse_logtype_def length_be_bytes)
      (simp_all add: be_bytes_def)
qed

lemma read_tag_remaining:
  "remaining reader = t # rest \<Longrightarrow>
     (try_read_numeric_value reader :: (encoded_tag_t \<times> ReaderInterface) option)
       = Some (t, advance reader 1)"
  using remaining_append [of reader "[t]" rest] by (simp add: read_tag)

lemma is_variable_tag_encoded:
  assumes "encoded_variable_tag TYPE('v::len) P
      \<notin> {VarStrLenUByte P, VarStrLenUShort P, VarStrLenInt P}"
  shows "is_variable_tag TYPE('v) P (encoded_variable_tag TYPE('v) P) = Some True"
  using assms by (simp add: is_variable_tag_def encoded_variable_tag_def)

lemma is_variable_tag_dictionary:
  "is_variable_tag TYPE('v::len) P (var_str_len_tag P form) = Some False"
  by (cases form) (simp_all add: is_variable_tag_def)

lemma decode_variables_loop_records:
  fixes recs :: "'v::len word variable_record list"
  assumes roundtrip: "\<And>reader (v :: 'v word) rest.
      remaining reader = be_bytes (LENGTH('v) div 8) v @ rest
      \<Longrightarrow> decode_int reader = Some (v, advance reader (LENGTH('v) div 8))"
    and tags: "distinct [VarStrLenUByte P, VarStrLenUShort P, VarStrLenInt P,
      encoded_variable_tag TYPE('v) P]"
    and last: "is_variable_tag TYPE('v) P tag = None"
    and ok: "list_all variable_record_ok recs"
    and stream: "remaining reader = concat (map (variable_record_bytes P) recs) @ tag # rest"
  shows "decode_variables_loop P (advance reader 1) (hd (remaining reader)) E D
       = (Inr (tag, E @ encoded_variables recs, D @ dictionary_variables recs),
          advance reader (length (concat (map (variable_record_bytes P) recs)) + 1))"
  using ok stream
proof (induction recs arbitrary: reader E D)
  case Nil
  then show ?case
    using last by (simp add: decode_variables_loop_other_tag)
next
  case (Cons rec recs)
  let ?more = "concat (map (variable_record_bytes P) recs) @ tag # rest"
  have hd_more: "?more = hd ?more # tl ?more"
    by (cases "concat (map (variable_record_bytes P) recs)") simp_all
  show ?case
  proof (cases rec)
    case (EncodedVariable v)
    let ?w = "LENGTH('v) div 8"
    let ?r1 = "advance reader (1 + ?w)"
    from Cons.prems EncodedVariable
    have s: "remaining reader = encoded_variable_tag TYPE('v) P # be_bytes ?w v @ ?more"
      by simp
    then have "remaining (advance reader 1) = be_bytes ?w v @ ?more"
      by (simp add: remaining_advance)
    then have d: "decode_int (advance reader 1) = Some (v, ?r1)"
      using roundtrip by (simp add: advance_advance)
    have m: "remaining ?r1 = ?more"
      using s by (simp add: remaining_advance length_be_bytes)
    have hm: "remaining ?r1 = hd ?more # tl ?more"
      unfolding m by (rule hd_more)
    have t: "(try_read_numeric_value ?r1 :: (encoded_tag_t \<times> ReaderInterface) option)
        = Some (hd ?more, advance ?r1 1)"
      by (rule read_tag_remaining [OF hm])
    have IH: "decode_variables_loop P (advance ?r1 1) (hd ?more) (E @ [v]) D
        = (Inr (tag, (E @ [v]) @ encoded_variables recs, D @ dictionary_variables recs),
           advance ?r1 (length (concat (map (variable_record_bytes P) recs)) + 1))"
      using Cons.IH [of ?r1 "E @ [v]" D] Cons.prems m by simp
    have tag: "is_variable_tag TYPE('v) P (encoded_variable_tag TYPE('v) P) = Some True"
      using tags by (intro is_variable_tag_encoded) auto
    show ?thesis
      using s d t IH tag EncodedVariable
      by (subst decode_variables_loop.simps)
        (simp add: advance_advance length_be_bytes add.assoc)
  next
    case (DictionaryVariable form str)
    let ?w = "length (length_bytes form (length str)) + length str"
    let ?r1 = "advance reader (1 + ?w)"
    from Cons.prems DictionaryVariable
    have s: "remaining reader
        = var_str_len_tag P form # length_bytes form (length str) @ str @ ?more"
      and fits: "length_fits form (length str)"
      by simp_all
    then have "remaining (advance reader 1) = length_bytes form (length str) @ str @ ?more"
      by (simp add: remaining_advance)
    then have d: "parse_dictionary_var P (advance reader 1) (var_str_len_tag P form)
        = (Inr str, ?r1)"
      using tags fits
      by (simp add: parse_dictionary_var_record advance_advance)
    have m: "remaining ?r1 = ?more"
      using s by (simp add: remaining_advance)
    have hm: "remaining ?r1 = hd ?more # tl ?more"
      unfolding m by (rule hd_more)
    have t: "(try_read_numeric_value ?r1 :: (encoded_tag_t \<times> ReaderInterface) option)
        = Some (hd ?more, advance ?r1 1)"
      by (rule read_tag_remaining [OF hm])
    have IH: "decode_variables_loop P (advance ?r1 1) (hd ?more) E (D @ [str])
        = (Inr (tag, E @ encoded_variables recs, (D @ [str]) @ dictionary_variables recs),
           advance ?r1 (length (concat (map (variable_record_bytes P) recs)) + 1))"
      using Cons.IH [of ?r1 E "D @ [str]"] Cons.prems m by simp
    show ?thesis
      using s d t IH DictionaryVariable is_variable_tag_dictionary [where ?'v = 'v, of P form]
      by (subst decode_variables_loop.simps)
        (simp add: advance_advance add.assoc)
  qed
qed

lemma first_tag_not_eof:
  fixes recs :: "'v::len word variable_record list"
  assumes "frame_tags_distinct TYPE('v) P" "recs = [] \<longrightarrow> tag \<noteq> Eof P"
  shows "hd (concat (map (variable_record_bytes P) recs) @ tag # rest) \<noteq> Eof P"
proof (cases recs)
  case Nil
  with assms(2) show ?thesis by simp
next
  case (Cons rec recs')
  show ?thesis
  proof (cases rec)
    case (EncodedVariable v)
    with Cons assms(1) show ?thesis
      by (auto simp add: frame_tags_distinct_def)
  next
    case (DictionaryVariable form s)
    with Cons assms(1) show ?thesis
      by (cases form) (auto simp add: frame_tags_distinct_def)
  qed
qed

lemma parse_frame_variables:
  fixes recs :: "'v::len word variable_record list"
  assumes roundtrip: "\<And>reader (v :: 'v word) rest.
      remaining reader = be_bytes (LENGTH('v) div 8) v @ rest
      \<Longrightarrow> decode_int reader = Some (v, advance reader (LENGTH('v) div 8))"
    and tags: "frame_tags_distinct TYPE('v) P"
    and last: "is_variable_tag TYPE('v) P tag = None"
    and first: "recs = [] \<longrightarrow> tag \<noteq> Eof P"
    and ok: "list_all variable_record_ok recs"
    and stream: "remaining reader = concat (map (variable_record_bytes P) recs) @ tag # rest"
  shows "try_read_numeric_value reader = Some (hd (remaining reader), advance reader 1)
       \<and> hd (remaining reader) \<noteq> Eof P
       \<and> decode_variables_loop P (advance reader 1) (hd (remaining reader)) [] []
           = (Inr (tag, encoded_variables recs, dictionary_variables recs),
              advance reader (length (concat (map (variable_record_bytes P) recs)) + 1))"
proof -
  let ?s = "concat (map (variable_record_bytes P) recs) @ tag # rest"
  have "?s = hd ?s # tl ?s"
    by (cases "concat (map (variable_record_bytes P) recs)") simp_all
  then have "remaining reader = hd (remaining reader) # tl (remaining reader)"
    using stream by simp
  then have "(try_read_numeric_value reader :: (encoded_tag_t \<times> ReaderInterface) option)
      = Some (hd (remaining reader), advance reader 1)"
    by (rule read_tag_remaining)
  moreover have "hd (remaining reader) \<noteq> Eof P"
    unfolding stream using tags first by (rule first_tag_not_eof)
  moreover have "distinct [VarStrLenUByte P, VarStrLenUShort P, VarStrLenInt P,
      encoded_variable_tag TYPE('v) P]"
    using tags by (simp add: frame_tags_distinct_def)
  then have "decode_variables_loop P (advance reader 1) (hd (remaining reader)) [] []
       = (Inr (tag, [] @ encoded_variables recs, [] @ dictionary_variables recs),
          advance reader (length (concat (map (variable_record_bytes P) recs)) + 1))"
    using roundtrip last ok stream by (intro decode_variables_loop_records)
  ultimately show ?thesis
    by simp
qed

lemma bad_tag_after_variables:
  fixes recs :: "'v::len word variable_record list"
    and ff fi :: "'v word \<Rightarrow> byte list option"
  assumes roundtrip: "\<And>reader (v :: 'v word) rest.
      remaining reader = be_bytes (LENGTH('v) div 8) v @ rest
      \<Longrightarrow> decode_int reader = Some (v, advance reader (LENGTH('v) div 8))"
    and tags: "frame_tags_distinct TYPE('v) P"
    and last: "is_variable_tag TYPE('v) P tag = None"
    and bad: "tag \<notin> {LogtypeStrLenUByte P, LogtypeStrLenUShort P, LogtypeStrLenInt P}"
    and first: "recs = [] \<longrightarrow> tag \<noteq> Eof P"
    and ok: "list_all variable_record_ok recs"
    and stream: "remaining reader = concat (map (variable_record_bytes P) recs) @ tag # rest"
  shows "generic_decode_next_message P ff fi reader
       = (Inl IRErrorCode_Corrupted_IR,
          advance reader (length (concat (map (variable_record_bytes P) recs)) + 1))"
  using parse_frame_variables [OF roundtrip tags last first ok stream]
    parse_logtype_other_tag [OF bad]
  by (simp add: generic_decode_next_message_def parse_frame_def eq_commute [of "Eof P"])

lemma bad_tag_after_logtype:
  fixes recs :: "'v::len word variable_record list"
    and ff fi :: "'v word \<Rightarrow> byte list option"
  assumes roundtrip: "\<And>reader (v :: 'v word) rest.
      remaining reader = be_bytes (LENGTH('v) div 8) v @ rest
      \<Longrightarrow> decode_int reader = Some (v, advance reader (LENGTH('v) div 8))"
    and tags: "frame_tags_distinct TYPE('v) P"
    and bad: "\<And>r. parse_timestamp TYPE('v) P r tag3 = (Inl IRErrorCode_Corrupted_IR, r)"
    and ok: "list_all variable_record_ok recs"
    and fits: "length_fits form (length logtype)"
    and stream: "remaining reader = concat (map (variable_record_bytes P) recs)
        @ logtype_record_bytes P form logtype @ tag3 # rest"
  shows "generic_decode_next_message P ff fi reader
       = (Inl IRErrorCode_Corrupted_IR,
          advance reader (length (concat (map (variable_record_bytes P) recs))
            + length (logtype_record_bytes P form logtype) + 1))"
proof -
  let ?n = "length (concat (map (variable_record_bytes P) recs))"
  let ?lw = "length (length_bytes form (length logtype))"
  let ?tag = "logtype_str_len_tag P form"
  let ?r2 = "advance reader (?n + 1)"
  let ?r3 = "advance ?r2 (?lw + length logtype)"
  have s: "remaining reader = concat (map (variable_record_bytes P) recs)
      @ ?tag # (length_bytes form (length logtype) @ logtype @ tag3 # rest)"
    using stream by (simp add: logtype_record_bytes_def)
  have last: "is_variable_tag TYPE('v) P ?tag = None"
    using tags by (cases form) (auto simp add: frame_tags_distinct_def is_variable_tag_def
        encoded_variable_tag_def split: if_splits)
  have first: "recs = [] \<longrightarrow> ?tag \<noteq> Eof P"
    using tags by (cases form) (auto simp add: frame_tags_distinct_def)
  note vars = parse_frame_variables [OF roundtrip tags last first ok s]
  have "remaining ?r2 = length_bytes form (length logtype) @ logtype @ tag3 # rest"
    using s by (simp add: remaining_advance)
  moreover have "distinct [LogtypeStrLenUByte P, LogtypeStrLenUShort P, LogtypeStrLenInt P]"
    using tags by (simp add: frame_tags_distinct_def)
  ultimately have l: "parse_logtype P ?r2 ?tag = (Inr logtype, ?r3)"
    using fits by (simp add: parse_logtype_record)
  have "remaining ?r3 = tag3 # rest"
    using s by (simp add: remaining_advance advance_advance)
  then have t: "(try_read_numeric_value ?r3 :: (encoded_tag_t \<times> ReaderInterface) option)
      = Some (tag3, advance ?r3 1)"
    by (rule read_tag_remaining)
  have "generic_decode_next_message P ff fi reader
      = (Inl IRErrorCode_Corrupted_IR, advance ?r3 1)"
    using vars l t bad
    by (simp add: generic_decode_next_message_def parse_frame_def eq_commute [of "Eof P"])
  then show ?thesis
    by (simp add: advance_advance logtype_record_bytes_def add.assoc)
qed

lemma roundtrip_four:
  "remaining reader = be_bytes (LENGTH(32) div 8) (v :: four_byte_encoded_variable_t) @ rest
     \<Longrightarrow> decode_int reader = Some (v, advance reader (LENGTH(32) div 8))"
  by (simp add: decode_int_be_bytes_32)

lemma roundtrip_eight:
  "remaining reader = be_bytes (LENGTH(64) div 8) (v :: eight_byte_encoded_variable_t) @ rest
     \<Longrightarrow> decode_int reader = Some (v, advance reader (LENGTH(64) div 8))"
  by (simp add: decode_int_be_bytes_64)

subsection \<open>The corrupted tag\<close>

text \<open>
  C9: a frame whose first byte is none of the end-of-stream tag, the variable tags of the
  variant and the logtype-length tags makes \<open>decode_next_message\<close> return Corrupted, the
  reader one byte further. More generally, for a stream given by its bytes: when the frame
  begins with any number of well-formed variable records and the byte after them is neither
  a variable tag of the variant nor a logtype-length tag (nor, with no variable record, the
  end-of-stream tag), the result is Corrupted and the reader stands behind that byte; and
  when the variable records are followed by a well-formed logtype record and the byte after
  it is not a timestamp tag of the variant, the result is Corrupted and the reader stands
  behind that byte. The tags of the protocol are taken pairwise different.
\<close>

theorem corrupted_tag:
  "(next_bytes reader 1 = [tag]
      \<and> tag \<notin> {Eof P, VarStrLenUByte P, VarStrLenUShort P, VarStrLenInt P,
                VarFourByteEncoding P, LogtypeStrLenUByte P, LogtypeStrLenUShort P,
                LogtypeStrLenInt P}
      \<longrightarrow> four_byte_encoding_decode_next_message P ff4 fi4 reader
            = (Inl IRErrorCode_Corrupted_IR, advance reader 1))
   \<and> (next_bytes reader 1 = [tag]
      \<and> tag \<notin> {Eof P, VarStrLenUByte P, VarStrLenUShort P, VarStrLenInt P,
                VarEightByteEncoding P, LogtypeStrLenUByte P, LogtypeStrLenUShort P,
                LogtypeStrLenInt P}
      \<longrightarrow> eight_byte_encoding_decode_next_message P ff8 fi8 reader
            = (Inl IRErrorCode_Corrupted_IR, advance reader 1))
   \<and> (frame_tags_distinct TYPE(32) P \<and> list_all variable_record_ok recs4
      \<and> remaining reader
          = concat (map (variable_record_bytes P)
              (recs4 :: four_byte_encoded_variable_t variable_record list)) @ tag # rest
      \<and> tag \<notin> {VarStrLenUByte P, VarStrLenUShort P, VarStrLenInt P, VarFourByteEncoding P,
                LogtypeStrLenUByte P, LogtypeStrLenUShort P, LogtypeStrLenInt P}
      \<and> (recs4 = [] \<longrightarrow> tag \<noteq> Eof P)
      \<longrightarrow> four_byte_encoding_decode_next_message P ff4 fi4 reader
            = (Inl IRErrorCode_Corrupted_IR,
               advance reader (length (concat (map (variable_record_bytes P) recs4)) + 1)))
   \<and> (frame_tags_distinct TYPE(64) P \<and> list_all variable_record_ok recs8
      \<and> remaining reader
          = concat (map (variable_record_bytes P)
              (recs8 :: eight_byte_encoded_variable_t variable_record list)) @ tag # rest
      \<and> tag \<notin> {VarStrLenUByte P, VarStrLenUShort P, VarStrLenInt P, VarEightByteEncoding P,
                LogtypeStrLenUByte P, LogtypeStrLenUShort P, LogtypeStrLenInt P}
      \<and> (recs8 = [] \<longrightarrow> tag \<noteq> Eof P)
      \<longrightarrow> eight_byte_encoding_decode_next_message P ff8 fi8 reader
            = (Inl IRErrorCode_Corrupted_IR,
               advance reader (length (concat (map (variable_record_bytes P) recs8)) + 1)))
   \<and> (frame_tags_distinct TYPE(32) P \<and> list_all variable_record_ok recs4
      \<and> length_fits form (length logtype)
      \<and> remaining reader
          = concat (map (variable_record_bytes P)
              (recs4 :: four_byte_encoded_variable_t variable_record list))
            @ logtype_record_bytes P form logtype @ tag3 # rest
      \<and> tag3 \<notin> {TimestampDeltaByte P, TimestampDeltaShort P, TimestampDeltaInt P}
      \<longrightarrow> four_byte_encoding_decode_next_message P ff4 fi4 reader
            = (Inl IRErrorCode_Corrupted_IR,
               advance reader (length (concat (map (variable_record_bytes P) recs4))
                 + length (logtype_record_bytes P form logtype) + 1)))
   \<and> (frame_tags_distinct TYPE(64) P \<and> list_all variable_record_ok recs8
      \<and> length_fits form (length logtype)
      \<and> remaining reader
          = concat (map (variable_record_bytes P)
              (recs8 :: eight_byte_encoded_variable_t variable_record list))
            @ logtype_record_bytes P form logtype @ tag3 # rest
      \<and> tag3 \<noteq> TimestampVal P
      \<longrightarrow> eight_byte_encoding_decode_next_message P ff8 fi8 reader
            = (Inl IRErrorCode_Corrupted_IR,
               advance reader (length (concat (map (variable_record_bytes P) recs8))
                 + length (logtype_record_bytes P form logtype) + 1)))"
proof (intro conjI impI; elim conjE)
  assume "next_bytes reader 1 = [tag]"
    and "tag \<notin> {Eof P, VarStrLenUByte P, VarStrLenUShort P, VarStrLenInt P,
                VarFourByteEncoding P, LogtypeStrLenUByte P, LogtypeStrLenUShort P,
                LogtypeStrLenInt P}"
  moreover from this have "is_variable_tag TYPE(32) P tag = None"
    by (simp add: is_variable_tag_def)
  ultimately show "four_byte_encoding_decode_next_message P ff4 fi4 reader
            = (Inl IRErrorCode_Corrupted_IR, advance reader 1)"
    by (simp add: four_byte_encoding_decode_next_message_def generic_decode_next_message_def
        parse_frame_def read_tag decode_variables_loop_other_tag parse_logtype_other_tag
        eq_commute [of "Eof P"])
next
  assume "next_bytes reader 1 = [tag]"
    and "tag \<notin> {Eof P, VarStrLenUByte P, VarStrLenUShort P, VarStrLenInt P,
                VarEightByteEncoding P, LogtypeStrLenUByte P, LogtypeStrLenUShort P,
                LogtypeStrLenInt P}"
  moreover from this have "is_variable_tag TYPE(64) P tag = None"
    by (simp add: is_variable_tag_def)
  ultimately show "eight_byte_encoding_decode_next_message P ff8 fi8 reader
            = (Inl IRErrorCode_Corrupted_IR, advance reader 1)"
    by (simp add: eight_byte_encoding_decode_next_message_def generic_decode_next_message_def
        parse_frame_def read_tag decode_variables_loop_other_tag parse_logtype_other_tag
        eq_commute [of "Eof P"])
next
  assume tags: "frame_tags_distinct TYPE(32) P" and ok: "list_all variable_record_ok recs4"
    and stream: "remaining reader = concat (map (variable_record_bytes P) recs4) @ tag # rest"
    and bad: "tag \<notin> {VarStrLenUByte P, VarStrLenUShort P, VarStrLenInt P,
        VarFourByteEncoding P, LogtypeStrLenUByte P, LogtypeStrLenUShort P, LogtypeStrLenInt P}"
    and first: "recs4 = [] \<longrightarrow> tag \<noteq> Eof P"
  from bad have last: "is_variable_tag TYPE(32) P tag = None"
    and log: "tag \<notin> {LogtypeStrLenUByte P, LogtypeStrLenUShort P, LogtypeStrLenInt P}"
    by (simp_all add: is_variable_tag_def)
  show "four_byte_encoding_decode_next_message P ff4 fi4 reader
      = (Inl IRErrorCode_Corrupted_IR,
         advance reader (length (concat (map (variable_record_bytes P) recs4)) + 1))"
    unfolding four_byte_encoding_decode_next_message_def
    using roundtrip_four tags last log first ok stream by (rule bad_tag_after_variables)
next
  assume tags: "frame_tags_distinct TYPE(64) P" and ok: "list_all variable_record_ok recs8"
    and stream: "remaining reader = concat (map (variable_record_bytes P) recs8) @ tag # rest"
    and bad: "tag \<notin> {VarStrLenUByte P, VarStrLenUShort P, VarStrLenInt P,
        VarEightByteEncoding P, LogtypeStrLenUByte P, LogtypeStrLenUShort P, LogtypeStrLenInt P}"
    and first: "recs8 = [] \<longrightarrow> tag \<noteq> Eof P"
  from bad have last: "is_variable_tag TYPE(64) P tag = None"
    and log: "tag \<notin> {LogtypeStrLenUByte P, LogtypeStrLenUShort P, LogtypeStrLenInt P}"
    by (simp_all add: is_variable_tag_def)
  show "eight_byte_encoding_decode_next_message P ff8 fi8 reader
      = (Inl IRErrorCode_Corrupted_IR,
         advance reader (length (concat (map (variable_record_bytes P) recs8)) + 1))"
    unfolding eight_byte_encoding_decode_next_message_def
    using roundtrip_eight tags last log first ok stream by (rule bad_tag_after_variables)
next
  assume tags: "frame_tags_distinct TYPE(32) P" and ok: "list_all variable_record_ok recs4"
    and fits: "length_fits form (length logtype)"
    and stream: "remaining reader = concat (map (variable_record_bytes P) recs4)
        @ logtype_record_bytes P form logtype @ tag3 # rest"
    and "tag3 \<notin> {TimestampDeltaByte P, TimestampDeltaShort P, TimestampDeltaInt P}"
  then have bad: "parse_timestamp TYPE(32) P r tag3 = (Inl IRErrorCode_Corrupted_IR, r)" for r
    by (auto simp add: parse_timestamp_def)
  show "four_byte_encoding_decode_next_message P ff4 fi4 reader
      = (Inl IRErrorCode_Corrupted_IR,
         advance reader (length (concat (map (variable_record_bytes P) recs4))
           + length (logtype_record_bytes P form logtype) + 1))"
    unfolding four_byte_encoding_decode_next_message_def
    using roundtrip_four tags bad ok fits stream by (rule bad_tag_after_logtype)
next
  assume tags: "frame_tags_distinct TYPE(64) P" and ok: "list_all variable_record_ok recs8"
    and fits: "length_fits form (length logtype)"
    and stream: "remaining reader = concat (map (variable_record_bytes P) recs8)
        @ logtype_record_bytes P form logtype @ tag3 # rest"
    and "tag3 \<noteq> TimestampVal P"
  then have bad: "parse_timestamp TYPE(64) P r tag3 = (Inl IRErrorCode_Corrupted_IR, r)" for r
    by (auto simp add: parse_timestamp_def)
  show "eight_byte_encoding_decode_next_message P ff8 fi8 reader
      = (Inl IRErrorCode_Corrupted_IR,
         advance reader (length (concat (map (variable_record_bytes P) recs8))
           + length (logtype_record_bytes P form logtype) + 1))"
    unfolding eight_byte_encoding_decode_next_message_def
    using roundtrip_eight tags bad ok fits stream by (rule bad_tag_after_logtype)
qed

theorem corrupted_tag_witness:
  "four_byte_encoding_decode_next_message example_protocol example_decode_var example_decode_var
       \<lparr>buf = [0x7F, 0x00], pos = 0\<rparr>
     = (Inl IRErrorCode_Corrupted_IR, \<lparr>buf = [0x7F, 0x00], pos = 1\<rparr>)
   \<and> eight_byte_encoding_decode_next_message example_protocol example_decode_var
         example_decode_var \<lparr>buf = [0x18, 0x00], pos = 0\<rparr>
     = (Inl IRErrorCode_Corrupted_IR, \<lparr>buf = [0x18, 0x00], pos = 1\<rparr>)
   \<and> remaining \<lparr>buf = [0x18, 0x00, 0x00, 0x00, 0x2A, 0x7F, 0x01, 0x41, 0x31, 0x00], pos = 0\<rparr>
     = concat (map (variable_record_bytes example_protocol)
         [EncodedVariable (42 :: four_byte_encoded_variable_t)]) @ 0x7F # [0x01, 0x41, 0x31, 0x00]
   \<and> four_byte_encoding_decode_next_message example_protocol example_decode_var example_decode_var
       \<lparr>buf = [0x18, 0x00, 0x00, 0x00, 0x2A, 0x7F, 0x01, 0x41, 0x31, 0x00], pos = 0\<rparr>
     = (Inl IRErrorCode_Corrupted_IR,
        \<lparr>buf = [0x18, 0x00, 0x00, 0x00, 0x2A, 0x7F, 0x01, 0x41, 0x31, 0x00], pos = 6\<rparr>)
   \<and> remaining
       \<lparr>buf = [0x19, 0x00, 0x00, 0x00, 0x00, 0x00, 0x00, 0x00, 0x2A, 0x11, 0x01, 0x41, 0x18, 0x00],
        pos = 0\<rparr>
     = concat (map (variable_record_bytes example_protocol)
         [EncodedVariable (42 :: eight_byte_encoded_variable_t),
          DictionaryVariable LenUByte [0x41]]) @ 0x18 # [0x00]
   \<and> eight_byte_encoding_decode_next_message example_protocol example_decode_var
         example_decode_var
       \<lparr>buf = [0x19, 0x00, 0x00, 0x00, 0x00, 0x00, 0x00, 0x00, 0x2A, 0x11, 0x01, 0x41, 0x18, 0x00],
        pos = 0\<rparr>
     = (Inl IRErrorCode_Corrupted_IR,
        \<lparr>buf = [0x19, 0x00, 0x00, 0x00, 0x00, 0x00, 0x00, 0x00, 0x2A, 0x11, 0x01, 0x41, 0x18, 0x00],
         pos = 13\<rparr>)
   \<and> remaining
       \<lparr>buf = [0x18, 0x00, 0x00, 0x00, 0x2A, 0x11, 0x01, 0x41, 0x21, 0x01, 0x12, 0x30, 0x00],
        pos = 0\<rparr>
     = concat (map (variable_record_bytes example_protocol)
         [EncodedVariable (42 :: four_byte_encoded_variable_t),
          DictionaryVariable LenUByte [0x41]])
       @ logtype_record_bytes example_protocol LenUByte [0x12] @ 0x30 # [0x00]
   \<and> four_byte_encoding_decode_next_message example_protocol example_decode_var example_decode_var
       \<lparr>buf = [0x18, 0x00, 0x00, 0x00, 0x2A, 0x11, 0x01, 0x41, 0x21, 0x01, 0x12, 0x30, 0x00],
        pos = 0\<rparr>
     = (Inl IRErrorCode_Corrupted_IR,
        \<lparr>buf = [0x18, 0x00, 0x00, 0x00, 0x2A, 0x11, 0x01, 0x41, 0x21, 0x01, 0x12, 0x30, 0x00],
         pos = 12\<rparr>)
   \<and> remaining \<lparr>buf = [0x22, 0x00, 0x01, 0x12, 0x31, 0x05], pos = 0\<rparr>
     = concat (map (variable_record_bytes example_protocol)
         ([] :: eight_byte_encoded_variable_t variable_record list))
       @ logtype_record_bytes example_protocol LenUShort [0x12] @ 0x31 # [0x05]
   \<and> eight_byte_encoding_decode_next_message example_protocol example_decode_var
         example_decode_var \<lparr>buf = [0x22, 0x00, 0x01, 0x12, 0x31, 0x05], pos = 0\<rparr>
     = (Inl IRErrorCode_Corrupted_IR, \<lparr>buf = [0x22, 0x00, 0x01, 0x12, 0x31, 0x05], pos = 5\<rparr>)"
proof -
  let ?P = example_protocol
  let ?f4 = "example_decode_var :: four_byte_encoded_variable_t \<Rightarrow> byte list option"
  let ?f8 = "example_decode_var :: eight_byte_encoded_variable_t \<Rightarrow> byte list option"
  let ?A = "\<lparr>buf = [0x7F, 0x00], pos = 0\<rparr>"
  let ?A8 = "\<lparr>buf = [0x18, 0x00], pos = 0\<rparr>"
  let ?B = "\<lparr>buf = [0x18, 0x00, 0x00, 0x00, 0x2A, 0x7F, 0x01, 0x41, 0x31, 0x00], pos = 0\<rparr>"
  let ?C = "\<lparr>buf = [0x19, 0x00, 0x00, 0x00, 0x00, 0x00, 0x00, 0x00, 0x2A, 0x11, 0x01, 0x41, 0x18,
      0x00], pos = 0\<rparr>"
  let ?D = "\<lparr>buf = [0x18, 0x00, 0x00, 0x00, 0x2A, 0x11, 0x01, 0x41, 0x21, 0x01, 0x12, 0x30, 0x00],
      pos = 0\<rparr>"
  let ?E = "\<lparr>buf = [0x22, 0x00, 0x01, 0x12, 0x31, 0x05], pos = 0\<rparr>"
  let ?r4 = "[EncodedVariable (42 :: four_byte_encoded_variable_t)]"
  let ?r8 = "[EncodedVariable (42 :: eight_byte_encoded_variable_t),
      DictionaryVariable LenUByte [0x41]]"
  let ?d4 = "[EncodedVariable (42 :: four_byte_encoded_variable_t),
      DictionaryVariable LenUByte [0x41]]"
  let ?e8 = "[] :: eight_byte_encoded_variable_t variable_record list"
  note thm4 = corrupted_tag [where P = ?P and ?ff4.0 = ?f4 and ?fi4.0 = ?f4
      and ?ff8.0 = ?f8 and ?fi8.0 = ?f8]
  have distinct4: "frame_tags_distinct TYPE(32) ?P"
    and distinct8: "frame_tags_distinct TYPE(64) ?P"
    by (simp_all add: frame_tags_distinct_def encoded_variable_tag_def example_protocol_def)
  have nA: "next_bytes ?A 1 = [0x7F]" "next_bytes ?A8 1 = [0x18]"
    by (simp_all add: next_bytes_def)
  have tA: "(0x7F :: byte) \<notin> {Eof ?P, VarStrLenUByte ?P, VarStrLenUShort ?P, VarStrLenInt ?P,
      VarFourByteEncoding ?P, LogtypeStrLenUByte ?P, LogtypeStrLenUShort ?P, LogtypeStrLenInt ?P}"
    "(0x18 :: byte) \<notin> {Eof ?P, VarStrLenUByte ?P, VarStrLenUShort ?P, VarStrLenInt ?P,
      VarEightByteEncoding ?P, LogtypeStrLenUByte ?P, LogtypeStrLenUShort ?P, LogtypeStrLenInt ?P}"
    by (simp_all add: example_protocol_def)
  have c1: "four_byte_encoding_decode_next_message ?P ?f4 ?f4 ?A
      = (Inl IRErrorCode_Corrupted_IR, advance ?A 1)"
    by (rule thm4 [where reader = ?A and tag = "0x7F", THEN conjunct1, THEN mp])
      (intro conjI nA(1) tA(1))
  have c2: "eight_byte_encoding_decode_next_message ?P ?f8 ?f8 ?A8
      = (Inl IRErrorCode_Corrupted_IR, advance ?A8 1)"
    by (rule thm4 [where reader = ?A8 and tag = "0x18", THEN conjunct2, THEN conjunct1, THEN mp])
      (intro conjI nA(2) tA(2))
  have be: "be_bytes 4 (42 :: 32 word) = [0, 0, 0, 0x2A]"
    "be_bytes 8 (42 :: 64 word) = [0, 0, 0, 0, 0, 0, 0, 0x2A]"
    "be_bytes 1 (1 :: 8 word) = [1]" "be_bytes 2 (1 :: 16 word) = [0, 1]"
    by code_simp+
  have be1: "be_bytes (Suc 0) (1 :: 8 word) = [1]"
    by (simp add: be_bytes_def)
  have bytes4: "concat (map (variable_record_bytes ?P) ?r4) = [0x18, 0, 0, 0, 0x2A]"
    and bytes8: "concat (map (variable_record_bytes ?P) ?r8)
      = [0x19, 0, 0, 0, 0, 0, 0, 0, 0x2A, 0x11, 0x01, 0x41]"
    and bytesd: "concat (map (variable_record_bytes ?P) ?d4)
      = [0x18, 0, 0, 0, 0x2A, 0x11, 0x01, 0x41]"
    and bytese: "concat (map (variable_record_bytes ?P) ?e8) = []"
    and logd: "logtype_record_bytes ?P LenUByte [0x12] = [0x21, 0x01, 0x12]"
    and loge: "logtype_record_bytes ?P LenUShort [0x12] = [0x22, 0x00, 0x01, 0x12]"
    by (simp_all add: encoded_variable_tag_def be be1 logtype_record_bytes_def
        example_protocol_def)
  have rB: "remaining ?B = concat (map (variable_record_bytes ?P) ?r4)
      @ 0x7F # [0x01, 0x41, 0x31, 0x00]"
    unfolding bytes4 by (simp add: remaining_def)
  have rC: "remaining ?C = concat (map (variable_record_bytes ?P) ?r8) @ 0x18 # [0x00]"
    unfolding bytes8 by (simp add: remaining_def)
  have rD: "remaining ?D = concat (map (variable_record_bytes ?P) ?d4)
      @ logtype_record_bytes ?P LenUByte [0x12] @ 0x30 # [0x00]"
    unfolding bytesd logd by (simp add: remaining_def)
  have rE: "remaining ?E = concat (map (variable_record_bytes ?P) ?e8)
      @ logtype_record_bytes ?P LenUShort [0x12] @ 0x31 # [0x05]"
    unfolding bytese loge by (simp add: remaining_def)
  have ok: "list_all variable_record_ok ?r4" "list_all variable_record_ok ?r8"
    "list_all variable_record_ok ?d4" "list_all variable_record_ok ?e8"
    "length_fits LenUByte (length [0x12 :: byte])" "length_fits LenUShort (length [0x12 :: byte])"
    by simp_all
  have tB: "(0x7F :: byte) \<notin> {VarStrLenUByte ?P, VarStrLenUShort ?P, VarStrLenInt ?P,
      VarFourByteEncoding ?P, LogtypeStrLenUByte ?P, LogtypeStrLenUShort ?P, LogtypeStrLenInt ?P}"
    "?r4 = [] \<longrightarrow> (0x7F :: byte) \<noteq> Eof ?P"
    by (simp_all add: example_protocol_def)
  have tC: "(0x18 :: byte) \<notin> {VarStrLenUByte ?P, VarStrLenUShort ?P, VarStrLenInt ?P,
      VarEightByteEncoding ?P, LogtypeStrLenUByte ?P, LogtypeStrLenUShort ?P, LogtypeStrLenInt ?P}"
    "?r8 = [] \<longrightarrow> (0x18 :: byte) \<noteq> Eof ?P"
    by (simp_all add: example_protocol_def)
  have tD: "(0x30 :: byte) \<notin> {TimestampDeltaByte ?P, TimestampDeltaShort ?P, TimestampDeltaInt ?P}"
    and tE: "(0x31 :: byte) \<noteq> TimestampVal ?P"
    by (simp_all add: example_protocol_def)
  have c3: "four_byte_encoding_decode_next_message ?P ?f4 ?f4 ?B
      = (Inl IRErrorCode_Corrupted_IR,
         advance ?B (length (concat (map (variable_record_bytes ?P) ?r4)) + 1))"
    by (rule thm4 [where reader = ?B and tag = "0x7F" and ?recs4.0 = ?r4
          and rest = "[0x01, 0x41, 0x31, 0x00]",
          THEN conjunct2, THEN conjunct2, THEN conjunct1, THEN mp])
      (intro conjI distinct4 ok(1) rB tB)
  have c4: "eight_byte_encoding_decode_next_message ?P ?f8 ?f8 ?C
      = (Inl IRErrorCode_Corrupted_IR,
         advance ?C (length (concat (map (variable_record_bytes ?P) ?r8)) + 1))"
    by (rule thm4 [where reader = ?C and tag = "0x18" and ?recs8.0 = ?r8 and rest = "[0x00]",
          THEN conjunct2, THEN conjunct2, THEN conjunct2, THEN conjunct1, THEN mp])
      (intro conjI distinct8 ok(2) rC tC)
  have c5: "four_byte_encoding_decode_next_message ?P ?f4 ?f4 ?D
      = (Inl IRErrorCode_Corrupted_IR,
         advance ?D (length (concat (map (variable_record_bytes ?P) ?d4))
           + length (logtype_record_bytes ?P LenUByte [0x12]) + 1))"
    by (rule thm4 [where reader = ?D and ?tag3.0 = "0x30" and ?recs4.0 = ?d4
          and rest = "[0x00]" and form = LenUByte and logtype = "[0x12]",
          THEN conjunct2, THEN conjunct2, THEN conjunct2, THEN conjunct2, THEN conjunct1,
          THEN mp])
      (intro conjI distinct4 ok(3,5) rD tD)
  have c6: "eight_byte_encoding_decode_next_message ?P ?f8 ?f8 ?E
      = (Inl IRErrorCode_Corrupted_IR,
         advance ?E (length (concat (map (variable_record_bytes ?P) ?e8))
           + length (logtype_record_bytes ?P LenUShort [0x12]) + 1))"
    by (rule thm4 [where reader = ?E and ?tag3.0 = "0x31" and ?recs8.0 = ?e8
          and rest = "[0x05]" and form = LenUShort and logtype = "[0x12]",
          THEN conjunct2, THEN conjunct2, THEN conjunct2, THEN conjunct2, THEN conjunct2,
          THEN mp])
      (intro conjI distinct8 ok(4,6) rE tE)
  have adv: "advance ?A 1 = \<lparr>buf = buf ?A, pos = 1\<rparr>" "advance ?A8 1 = \<lparr>buf = buf ?A8, pos = 1\<rparr>"
    "advance ?B (length (concat (map (variable_record_bytes ?P) ?r4)) + 1)
      = \<lparr>buf = buf ?B, pos = 6\<rparr>"
    "advance ?C (length (concat (map (variable_record_bytes ?P) ?r8)) + 1)
      = \<lparr>buf = buf ?C, pos = 13\<rparr>"
    "advance ?D (length (concat (map (variable_record_bytes ?P) ?d4))
           + length (logtype_record_bytes ?P LenUByte [0x12]) + 1) = \<lparr>buf = buf ?D, pos = 12\<rparr>"
    "advance ?E (length (concat (map (variable_record_bytes ?P) ?e8))
           + length (logtype_record_bytes ?P LenUShort [0x12]) + 1) = \<lparr>buf = buf ?E, pos = 5\<rparr>"
    unfolding bytes4 bytes8 bytesd bytese logd loge by (simp_all add: advance_def)
  show ?thesis
    using c1 c2 c3 c4 c5 c6 rB rC rD rE unfolding adv
    by (simp only: ReaderInterface.simps simp_thms)
qed

section \<open>The renderer's loop and the recursion on the logtype\<close>

lemma decode_message_loop_render:
  assumes "next_static_text_begin_pos l \<le> cur_pos" "cur_pos \<le> length logtype"
  shows "(case decode_message_loop P ff fi logtype E D cur_pos l of
            Inl e \<Rightarrow> Inl e
          | Inr l' \<Rightarrow>
              Inr (if next_static_text_begin_pos l' < length logtype
                   then message l' @ drop (next_static_text_begin_pos l') logtype
                   else message l',
                   encoded_vars_ix l', dictionary_vars_ix l'))
       = (case render P ff fi (drop cur_pos logtype) (drop (encoded_vars_ix l) E)
                 (drop (dictionary_vars_ix l) D) of
            Inl e \<Rightarrow> Inl e
          | Inr (t, ne, nd) \<Rightarrow>
              Inr (message l
                     @ take (cur_pos - next_static_text_begin_pos l)
                         (drop (next_static_text_begin_pos l) logtype) @ t,
                   encoded_vars_ix l + ne, dictionary_vars_ix l + nd))"
  using assms
proof (induction P ff fi logtype E D cur_pos l rule: decode_message_loop.induct)
  case (1 P ff fi logtype E D cur_pos l)
  show ?case
  proof (cases "cur_pos < length logtype")
    case False
    with "1.prems" have "cur_pos = length logtype" by simp
    then show ?thesis
      using "1.prems" by (subst decode_message_loop.simps) simp
  next
    case True
    define c where "c = logtype ! cur_pos"
    define s where "s = next_static_text_begin_pos l"
    have d: "drop cur_pos logtype = c # drop (Suc cur_pos) logtype"
      using True by (simp add: Cons_nth_drop_Suc c_def)
    have st: "take (Suc cur_pos - s) (drop s logtype)
        = take (cur_pos - s) (drop s logtype) @ [c]"
      using True "1.prems" unfolding s_def c_def
      by (simp add: Suc_diff_le take_Suc_conv_app_nth)
    note IH = "1.IH" [OF True c_def [symmetric, THEN sym] refl]
    have dE: "drop (encoded_vars_ix l) E = E ! encoded_vars_ix l # drop (Suc (encoded_vars_ix l)) E"
      if "encoded_vars_ix l < length E"
      using that by (simp add: Cons_nth_drop_Suc)
    have dD: "drop (dictionary_vars_ix l) D
        = D ! dictionary_vars_ix l # drop (Suc (dictionary_vars_ix l)) D"
      if "dictionary_vars_ix l < length D"
      using that by (simp add: Cons_nth_drop_Suc)
    consider (float) "c = VariablePlaceholder_Float P"
      | (integer) "c \<noteq> VariablePlaceholder_Float P" "c = VariablePlaceholder_Integer P"
      | (dictionary) "c \<noteq> VariablePlaceholder_Float P" "c \<noteq> VariablePlaceholder_Integer P"
          "c = VariablePlaceholder_Dictionary P"
      | (escape) "c \<noteq> VariablePlaceholder_Float P" "c \<noteq> VariablePlaceholder_Integer P"
          "c \<noteq> VariablePlaceholder_Dictionary P" "c = cVariablePlaceholderEscapeCharacter P"
      | (static) "c \<noteq> VariablePlaceholder_Float P" "c \<noteq> VariablePlaceholder_Integer P"
          "c \<noteq> VariablePlaceholder_Dictionary P" "c \<noteq> cVariablePlaceholderEscapeCharacter P"
      by blast
    then show ?thesis
    proof cases
      case float
      show ?thesis
      proof (cases "encoded_vars_ix l < length E")
        case False
        then show ?thesis
          using True float
          by (subst decode_message_loop.simps) (simp add: d c_def [symmetric])
      next
        case less: True
        show ?thesis
        proof (cases "ff (E ! encoded_vars_ix l)")
          case None
          then show ?thesis
            using True float less
            by (subst decode_message_loop.simps) (simp add: d dE c_def [symmetric])
        next
          case (Some str)
          then show ?thesis
            using True float less IH(1) [of str]
            by (subst decode_message_loop.simps)
              (auto simp add: d dE c_def [symmetric] split: sum.splits)
        qed
      qed
    next
      case integer
      show ?thesis
      proof (cases "encoded_vars_ix l < length E")
        case False
        then show ?thesis
          using True integer
          by (subst decode_message_loop.simps) (simp add: d c_def [symmetric])
      next
        case less: True
        show ?thesis
        proof (cases "fi (E ! encoded_vars_ix l)")
          case None
          then show ?thesis
            using True integer less
            by (subst decode_message_loop.simps) (simp add: d dE c_def [symmetric])
        next
          case (Some str)
          then show ?thesis
            using True integer less IH(2) [of str]
            by (subst decode_message_loop.simps)
              (auto simp add: d dE c_def [symmetric] split: sum.splits)
        qed
      qed
    next
      case dictionary
      show ?thesis
      proof (cases "dictionary_vars_ix l < length D")
        case False
        then show ?thesis
          using True dictionary
          by (subst decode_message_loop.simps) (simp add: d c_def [symmetric])
      next
        case less: True
        then show ?thesis
          using True dictionary IH(3)
          by (subst decode_message_loop.simps)
            (auto simp add: d dD c_def [symmetric] split: sum.splits)
      qed
    next
      case escape
      show ?thesis
      proof (cases "cur_pos = length logtype - 1")
        case last: True
        then have e: "drop (Suc cur_pos) logtype = []"
          by simp
        have lc: "logtype ! (length logtype - Suc 0) = c"
          using last by (simp add: c_def)
        show ?thesis
          using True escape last e d
          by (subst decode_message_loop.simps) (simp add: lc)
      next
        case False
        then have more: "Suc cur_pos < length logtype"
          using True by simp
        then have d': "drop (Suc cur_pos) logtype
            = logtype ! Suc cur_pos # drop (Suc (Suc cur_pos)) logtype"
          by (simp add: Cons_nth_drop_Suc)
        have one: "take (Suc 0) (drop (Suc cur_pos) logtype) = [logtype ! Suc cur_pos]"
          by (simp add: d')
        show ?thesis
          using True escape False more IH(4)
          by (subst decode_message_loop.simps)
            (auto simp add: d d' one c_def [symmetric] split: sum.splits)
      qed
    next
      case static
      then show ?thesis
        using True IH(5) "1.prems"
        by (subst decode_message_loop.simps)
          (auto simp add: d st [unfolded s_def] c_def [symmetric] split: sum.splits)
    qed
  qed
qed

lemma decode_message_render:
  "decode_message P ff fi logtype E D
     = (case render P ff fi logtype E D of Inl e \<Rightarrow> Inl e | Inr (t, ne, nd) \<Rightarrow> Inr t)"
  using decode_message_loop_render [of
      "\<lparr>next_static_text_begin_pos = 0, dictionary_vars_ix = 0, encoded_vars_ix = 0, message = []\<rparr>"
      0 logtype P ff fi E D]
  by (auto simp add: decode_message_def split: sum.splits)

lemma decode_message_loop_consumed:
  "(case decode_message_loop P ff fi logtype E D 0
           \<lparr>next_static_text_begin_pos = 0, dictionary_vars_ix = 0, encoded_vars_ix = 0,
            message = []\<rparr> of
      Inl e \<Rightarrow> Inl e
    | Inr l \<Rightarrow> Inr (encoded_vars_ix l, dictionary_vars_ix l))
   = (case render P ff fi logtype E D of Inl e \<Rightarrow> Inl e | Inr (t, ne, nd) \<Rightarrow> Inr (ne, nd))"
  using decode_message_loop_render [of
      "\<lparr>next_static_text_begin_pos = 0, dictionary_vars_ix = 0, encoded_vars_ix = 0, message = []\<rparr>"
      0 logtype P ff fi E D]
  by (auto split: sum.splits)

lemma encoded_placeholders_Cons:
  "encoded_placeholders P (c # cs) =
     (if c = VariablePlaceholder_Float P \<or> c = VariablePlaceholder_Integer P
      then Suc (encoded_placeholders P cs)
      else if c = VariablePlaceholder_Dictionary P then encoded_placeholders P cs
      else if c = cVariablePlaceholderEscapeCharacter P then encoded_placeholders P (tl cs)
      else encoded_placeholders P cs)"
  by (cases cs) simp_all

lemma dictionary_placeholders_Cons:
  "dictionary_placeholders P (c # cs) =
     (if c = VariablePlaceholder_Float P \<or> c = VariablePlaceholder_Integer P
      then dictionary_placeholders P cs
      else if c = VariablePlaceholder_Dictionary P then Suc (dictionary_placeholders P cs)
      else if c = cVariablePlaceholderEscapeCharacter P then dictionary_placeholders P (tl cs)
      else dictionary_placeholders P cs)"
  by (cases cs) simp_all

lemma trailing_escape_Cons:
  "trailing_escape P (c # cs) =
     (if c = VariablePlaceholder_Float P \<or> c = VariablePlaceholder_Integer P
         \<or> c = VariablePlaceholder_Dictionary P
      then trailing_escape P cs
      else if c = cVariablePlaceholderEscapeCharacter P then cs = [] \<or> trailing_escape P (tl cs)
      else trailing_escape P cs)"
  by (cases cs) auto

lemmas placeholder_Cons =
  encoded_placeholders_Cons dictionary_placeholders_Cons trailing_escape_Cons

lemma render_counts:
  "render P ff fi cs E D = Inr (t, ne, nd) \<Longrightarrow>
     ne = encoded_placeholders P cs \<and> nd = dictionary_placeholders P cs
     \<and> ne \<le> length E \<and> nd \<le> length D \<and> \<not> trailing_escape P cs"
proof (induction P ff fi cs E D arbitrary: t ne nd rule: render.induct)
  case (1 P ff fi E D)
  then show ?case by simp
next
  case (2 P ff fi c cs E D)
  consider (float) "c = VariablePlaceholder_Float P"
    | (integer) "c \<noteq> VariablePlaceholder_Float P" "c = VariablePlaceholder_Integer P"
    | (dictionary) "c \<noteq> VariablePlaceholder_Float P" "c \<noteq> VariablePlaceholder_Integer P"
        "c = VariablePlaceholder_Dictionary P"
    | (escape) "c \<noteq> VariablePlaceholder_Float P" "c \<noteq> VariablePlaceholder_Integer P"
        "c \<noteq> VariablePlaceholder_Dictionary P" "c = cVariablePlaceholderEscapeCharacter P"
    | (static) "c \<noteq> VariablePlaceholder_Float P" "c \<noteq> VariablePlaceholder_Integer P"
        "c \<noteq> VariablePlaceholder_Dictionary P" "c \<noteq> cVariablePlaceholderEscapeCharacter P"
    by blast
  then show ?case
  proof cases
    case float
    with "2.prems" obtain e E' str t' ne' where *: "E = e # E'" "ff e = Some str"
      "render P ff fi cs E' D = Inr (t', ne', nd)" "ne = Suc ne'"
      by (auto split: list.splits option.splits sum.splits)
    from "2.IH"(1) [OF float *(1,2,3)] float * show ?thesis
      by (simp add: placeholder_Cons del: encoded_placeholders.simps
          dictionary_placeholders.simps trailing_escape.simps)
  next
    case integer
    with "2.prems" obtain e E' str t' ne' where *: "E = e # E'" "fi e = Some str"
      "render P ff fi cs E' D = Inr (t', ne', nd)" "ne = Suc ne'"
      by (auto split: list.splits option.splits sum.splits)
    from "2.IH"(2) [OF integer *(1,2,3)] integer * show ?thesis
      by (simp add: placeholder_Cons del: encoded_placeholders.simps
          dictionary_placeholders.simps trailing_escape.simps)
  next
    case dictionary
    with "2.prems" obtain d D' t' nd' where *: "D = d # D'"
      "render P ff fi cs E D' = Inr (t', ne, nd')" "nd = Suc nd'"
      by (auto split: list.splits option.splits sum.splits)
    from "2.IH"(3) [OF dictionary *(1,2)] dictionary * show ?thesis
      by (simp add: placeholder_Cons del: encoded_placeholders.simps
          dictionary_placeholders.simps trailing_escape.simps)
  next
    case escape
    with "2.prems" obtain c' cs' t' where *: "cs = c' # cs'"
      "render P ff fi cs' E D = Inr (t', ne, nd)"
      by (auto split: list.splits option.splits sum.splits)
    from "2.IH"(4) [OF escape *(1,2)] escape * show ?thesis
      by (simp add: placeholder_Cons del: encoded_placeholders.simps
          dictionary_placeholders.simps trailing_escape.simps)
  next
    case static
    with "2.prems" obtain t' where *: "render P ff fi cs E D = Inr (t', ne, nd)"
      by (auto split: list.splits option.splits sum.splits)
    from "2.IH"(5) [OF static *] static show ?thesis
      by (simp add: placeholder_Cons del: encoded_placeholders.simps
          dictionary_placeholders.simps trailing_escape.simps)
  qed
qed

lemma encoded_placeholder_list_Cons:
  "encoded_placeholder_list P (c # cs) =
     (if c = VariablePlaceholder_Float P \<or> c = VariablePlaceholder_Integer P
      then c # encoded_placeholder_list P cs
      else if c = VariablePlaceholder_Dictionary P then encoded_placeholder_list P cs
      else if c = cVariablePlaceholderEscapeCharacter P then encoded_placeholder_list P (tl cs)
      else encoded_placeholder_list P cs)"
  by (cases cs) simp_all

lemma render_no_throw:
  "render P ff fi cs E D = Inr r \<Longrightarrow>
     \<not> variable_decoding_throws P ff fi (encoded_placeholder_list P cs) E"
proof (induction P ff fi cs E D arbitrary: r rule: render.induct)
  case (1 P ff fi E D)
  then show ?case by simp
next
  case (2 P ff fi c cs E D)
  consider (float) "c = VariablePlaceholder_Float P"
    | (integer) "c \<noteq> VariablePlaceholder_Float P" "c = VariablePlaceholder_Integer P"
    | (dictionary) "c \<noteq> VariablePlaceholder_Float P" "c \<noteq> VariablePlaceholder_Integer P"
        "c = VariablePlaceholder_Dictionary P"
    | (escape) "c \<noteq> VariablePlaceholder_Float P" "c \<noteq> VariablePlaceholder_Integer P"
        "c \<noteq> VariablePlaceholder_Dictionary P" "c = cVariablePlaceholderEscapeCharacter P"
    | (static) "c \<noteq> VariablePlaceholder_Float P" "c \<noteq> VariablePlaceholder_Integer P"
        "c \<noteq> VariablePlaceholder_Dictionary P" "c \<noteq> cVariablePlaceholderEscapeCharacter P"
    by blast
  then show ?case
  proof cases
    case float
    with "2.prems" obtain e E0 str r' where *: "E = e # E0" "ff e = Some str"
      "render P ff fi cs E0 D = Inr r'"
      by (auto split: list.splits option.splits sum.splits)
    from "2.IH"(1) [OF float *] float * show ?thesis
      by (simp add: encoded_placeholder_list_Cons del: encoded_placeholder_list.simps)
  next
    case integer
    with "2.prems" obtain e E0 str r' where *: "E = e # E0" "fi e = Some str"
      "render P ff fi cs E0 D = Inr r'"
      by (auto split: list.splits option.splits sum.splits)
    from "2.IH"(2) [OF integer *] integer * show ?thesis
      by (simp add: encoded_placeholder_list_Cons del: encoded_placeholder_list.simps)
  next
    case dictionary
    with "2.prems" obtain d D0 r' where *: "D = d # D0" "render P ff fi cs E D0 = Inr r'"
      by (auto split: list.splits option.splits sum.splits)
    from "2.IH"(3) [OF dictionary *] dictionary * show ?thesis
      by (simp add: encoded_placeholder_list_Cons del: encoded_placeholder_list.simps)
  next
    case escape
    with "2.prems" obtain c' cs' r' where *: "cs = c' # cs'" "render P ff fi cs' E D = Inr r'"
      by (auto split: list.splits option.splits sum.splits)
    from "2.IH"(4) [OF escape *] escape * show ?thesis
      by (simp add: encoded_placeholder_list_Cons del: encoded_placeholder_list.simps)
  next
    case static
    with "2.prems" obtain r' where *: "render P ff fi cs E D = Inr r'"
      by (auto split: list.splits option.splits sum.splits)
    from "2.IH"(5) [OF static *] static * show ?thesis
      by (simp add: encoded_placeholder_list_Cons del: encoded_placeholder_list.simps)
  qed
qed

lemma render_take:
  "render P ff fi cs E D = Inr (t, ne, nd) \<Longrightarrow>
     render P ff fi cs (take ne E) (take nd D) = Inr (t, ne, nd)"
proof (induction P ff fi cs E D arbitrary: t ne nd rule: render.induct)
  case (1 P ff fi E D)
  then show ?case by simp
next
  case (2 P ff fi c cs E D)
  consider (float) "c = VariablePlaceholder_Float P"
    | (integer) "c \<noteq> VariablePlaceholder_Float P" "c = VariablePlaceholder_Integer P"
    | (dictionary) "c \<noteq> VariablePlaceholder_Float P" "c \<noteq> VariablePlaceholder_Integer P"
        "c = VariablePlaceholder_Dictionary P"
    | (escape) "c \<noteq> VariablePlaceholder_Float P" "c \<noteq> VariablePlaceholder_Integer P"
        "c \<noteq> VariablePlaceholder_Dictionary P" "c = cVariablePlaceholderEscapeCharacter P"
    | (static) "c \<noteq> VariablePlaceholder_Float P" "c \<noteq> VariablePlaceholder_Integer P"
        "c \<noteq> VariablePlaceholder_Dictionary P" "c \<noteq> cVariablePlaceholderEscapeCharacter P"
    by blast
  then show ?case
  proof cases
    case float
    with "2.prems" obtain e E0 str t' ne' where *: "E = e # E0" "ff e = Some str"
      "render P ff fi cs E0 D = Inr (t', ne', nd)" and **: "ne = Suc ne'" "t = str @ t'"
      by (auto split: list.splits option.splits sum.splits)
    from "2.IH"(1) [OF float *] float * ** show ?thesis
      by simp
  next
    case integer
    with "2.prems" obtain e E0 str t' ne' where *: "E = e # E0" "fi e = Some str"
      "render P ff fi cs E0 D = Inr (t', ne', nd)" and **: "ne = Suc ne'" "t = str @ t'"
      by (auto split: list.splits option.splits sum.splits)
    from "2.IH"(2) [OF integer *] integer * ** show ?thesis
      by simp
  next
    case dictionary
    with "2.prems" obtain d D0 t' nd' where *: "D = d # D0"
      "render P ff fi cs E D0 = Inr (t', ne, nd')" and **: "nd = Suc nd'" "t = d @ t'"
      by (auto split: list.splits option.splits sum.splits)
    from "2.IH"(3) [OF dictionary *] dictionary * ** show ?thesis
      by simp
  next
    case escape
    with "2.prems" obtain c' cs' t' where *: "cs = c' # cs'"
      "render P ff fi cs' E D = Inr (t', ne, nd)" and **: "t = c' # t'"
      by (auto split: list.splits option.splits sum.splits)
    from "2.IH"(4) [OF escape *] escape * ** show ?thesis
      by simp
  next
    case static
    with "2.prems" obtain t' where *: "render P ff fi cs E D = Inr (t', ne, nd)"
      and **: "t = c # t'"
      by (auto split: list.splits option.splits sum.splits)
    from "2.IH"(5) [OF static *] static * ** show ?thesis
      by simp
  qed
qed

lemma render_succeeds:
  assumes "\<not> variable_decoding_throws P ff fi (encoded_placeholder_list P cs) E"
    and "encoded_placeholders P cs \<le> length E"
    and "dictionary_placeholders P cs \<le> length D"
    and "\<not> trailing_escape P cs"
  shows "\<exists>r. render P ff fi cs E D = Inr r"
  using assms
proof (induction P ff fi cs E D rule: render.induct)
  case (1 P ff fi E D)
  then show ?case by simp
next
  case (2 P ff fi c cs E D)
  note counts = "2.prems"(2,3,4) [unfolded placeholder_Cons]
  note quiet = "2.prems"(1) [unfolded encoded_placeholder_list_Cons]
  consider (float) "c = VariablePlaceholder_Float P"
    | (integer) "c \<noteq> VariablePlaceholder_Float P" "c = VariablePlaceholder_Integer P"
    | (dictionary) "c \<noteq> VariablePlaceholder_Float P" "c \<noteq> VariablePlaceholder_Integer P"
        "c = VariablePlaceholder_Dictionary P"
    | (escape) "c \<noteq> VariablePlaceholder_Float P" "c \<noteq> VariablePlaceholder_Integer P"
        "c \<noteq> VariablePlaceholder_Dictionary P" "c = cVariablePlaceholderEscapeCharacter P"
    | (static) "c \<noteq> VariablePlaceholder_Float P" "c \<noteq> VariablePlaceholder_Integer P"
        "c \<noteq> VariablePlaceholder_Dictionary P" "c \<noteq> cVariablePlaceholderEscapeCharacter P"
    by blast
  then show ?case
  proof cases
    case float
    with counts obtain e E' where E: "E = e # E'"
      by (cases E) simp_all
    with quiet float obtain str where str: "ff e = Some str"
      and rest: "\<not> variable_decoding_throws P ff fi (encoded_placeholder_list P cs) E'"
      by auto
    have "\<exists>r. render P ff fi cs E' D = Inr r"
      using "2.IH"(1) [OF float E str rest] counts float E by simp
    then show ?thesis
      using float E str by auto
  next
    case integer
    with counts obtain e E' where E: "E = e # E'"
      by (cases E) simp_all
    with quiet integer obtain str where str: "fi e = Some str"
      and rest: "\<not> variable_decoding_throws P ff fi (encoded_placeholder_list P cs) E'"
      by auto
    have "\<exists>r. render P ff fi cs E' D = Inr r"
      using "2.IH"(2) [OF integer E str rest] counts integer E by simp
    then show ?thesis
      using integer E str by auto
  next
    case dictionary
    with counts obtain d D' where D: "D = d # D'"
      by (cases D) simp_all
    have "\<exists>r. render P ff fi cs E D' = Inr r"
      using "2.IH"(3) [OF dictionary D] quiet counts dictionary D by simp
    then show ?thesis
      using dictionary D by auto
  next
    case escape
    with counts obtain c' cs' where cs: "cs = c' # cs'"
      by (cases cs) simp_all
    have "\<exists>r. render P ff fi cs' E D = Inr r"
      using "2.IH"(4) [OF escape cs] quiet counts escape cs by simp
    then show ?thesis
      using escape cs by auto
  next
    case static
    have "\<exists>r. render P ff fi cs E D = Inr r"
      using "2.IH"(5) [OF static] quiet counts static by simp
    then show ?thesis
      using static by auto
  qed
qed

lemma render_append:
  "render P ff fi cs E D = Inr r \<Longrightarrow> render P ff fi cs (E @ E') (D @ D') = Inr r"
proof (induction P ff fi cs E D arbitrary: r rule: render.induct)
  case (1 P ff fi E D)
  then show ?case by simp
next
  case (2 P ff fi c cs E D)
  consider (float) "c = VariablePlaceholder_Float P"
    | (integer) "c \<noteq> VariablePlaceholder_Float P" "c = VariablePlaceholder_Integer P"
    | (dictionary) "c \<noteq> VariablePlaceholder_Float P" "c \<noteq> VariablePlaceholder_Integer P"
        "c = VariablePlaceholder_Dictionary P"
    | (escape) "c \<noteq> VariablePlaceholder_Float P" "c \<noteq> VariablePlaceholder_Integer P"
        "c \<noteq> VariablePlaceholder_Dictionary P" "c = cVariablePlaceholderEscapeCharacter P"
    | (static) "c \<noteq> VariablePlaceholder_Float P" "c \<noteq> VariablePlaceholder_Integer P"
        "c \<noteq> VariablePlaceholder_Dictionary P" "c \<noteq> cVariablePlaceholderEscapeCharacter P"
    by blast
  then show ?case
  proof cases
    case float
    with "2.prems" obtain e E0 str r' where *: "E = e # E0" "ff e = Some str"
      "render P ff fi cs E0 D = Inr r'"
      by (auto split: list.splits option.splits sum.splits)
    from "2.IH"(1) [OF float *] "2.prems" float * show ?thesis
      by simp
  next
    case integer
    with "2.prems" obtain e E0 str r' where *: "E = e # E0" "fi e = Some str"
      "render P ff fi cs E0 D = Inr r'"
      by (auto split: list.splits option.splits sum.splits)
    from "2.IH"(2) [OF integer *] "2.prems" integer * show ?thesis
      by simp
  next
    case dictionary
    with "2.prems" obtain d D0 r' where *: "D = d # D0" "render P ff fi cs E D0 = Inr r'"
      by (auto split: list.splits option.splits sum.splits)
    from "2.IH"(3) [OF dictionary *] "2.prems" dictionary * show ?thesis
      by simp
  next
    case escape
    with "2.prems" obtain c' cs' r' where *: "cs = c' # cs'" "render P ff fi cs' E D = Inr r'"
      by (auto split: list.splits option.splits sum.splits)
    from "2.IH"(4) [OF escape *] "2.prems" escape * show ?thesis
      by simp
  next
    case static
    with "2.prems" obtain r' where *: "render P ff fi cs E D = Inr r'"
      by (auto split: list.splits option.splits sum.splits)
    from "2.IH"(5) [OF static *] "2.prems" static * show ?thesis
      by simp
  qed
qed

lemma render_fully_escaped:
  assumes "\<not> is_placeholder P (cVariablePlaceholderEscapeCharacter P)"
    and "list_all (unit_ok P) us"
  shows "render P ff fi (concat (map (unit_bytes P) us)) E D = Inr (map unit_text us, 0, 0)"
  using assms(2)
proof (induction us)
  case Nil
  then show ?case by simp
next
  case (Cons u us)
  then show ?case
    using assms(1) by (cases u) (auto simp add: is_placeholder_def)
qed

section \<open>Error codes of the frame\<close>

lemma parse_dictionary_var_codes:
  "parse_dictionary_var P reader tag = (Inl e, reader') \<Longrightarrow>
     e = IRErrorCode_Incomplete_IR \<or> e = IRErrorCode_Corrupted_IR"
  by (auto simp add: parse_dictionary_var_def split: if_splits option.splits sum.splits)

lemma parse_logtype_codes:
  "parse_logtype P reader tag = (Inl e, reader') \<Longrightarrow>
     e = IRErrorCode_Incomplete_IR \<or> e = IRErrorCode_Corrupted_IR"
  by (auto simp add: parse_logtype_def split: if_splits option.splits sum.splits)

lemma parse_timestamp_codes:
  "parse_timestamp T P reader tag = (Inl e, reader') \<Longrightarrow>
     e = IRErrorCode_Incomplete_IR \<or> e = IRErrorCode_Corrupted_IR"
  by (auto simp add: parse_timestamp_def split: if_splits option.splits)

lemma decode_variables_loop_codes:
  "decode_variables_loop P reader tag E D = (Inl e, reader') \<Longrightarrow>
     e = IRErrorCode_Incomplete_IR \<or> e = IRErrorCode_Corrupted_IR"
proof (induction P reader tag E D rule: decode_variables_loop.induct)
  case (1 P reader encoded_tag encoded_vars dict_vars)
  from "1.prems" show ?case
    by (subst (asm) decode_variables_loop.simps)
      (auto split: option.splits if_splits prod.splits sum.splits
        dest: parse_dictionary_var_codes "1.IH"(1) "1.IH"(2))
qed

lemma parse_frame_codes:
  "parse_frame P reader = (Inl e, reader') \<Longrightarrow> e \<noteq> IRErrorCode_Decode_Error"
  by (auto simp add: parse_frame_def
      split: option.splits if_splits prod.splits sum.splits
      dest: decode_variables_loop_codes parse_logtype_codes parse_timestamp_codes)

section \<open>Decode errors\<close>

lemma decode_message_throws_iff:
  "(\<exists>e. decode_message P ff fi L E D = Inl e) \<longleftrightarrow>
     length E < encoded_placeholders P L \<or> length D < dictionary_placeholders P L
     \<or> trailing_escape P L
     \<or> variable_decoding_throws P ff fi (encoded_placeholder_list P L) E"
proof (cases "render P ff fi L E D")
  case (Inl e)
  then have "\<not> (\<exists>r. render P ff fi L E D = Inr r)"
    by simp
  with render_succeeds [of P ff fi L E D] have
    "length E < encoded_placeholders P L \<or> length D < dictionary_placeholders P L
     \<or> trailing_escape P L
     \<or> variable_decoding_throws P ff fi (encoded_placeholder_list P L) E"
    by (meson not_le_imp_less)
  with Inl show ?thesis
    by (simp add: decode_message_render)
next
  case (Inr r)
  obtain t ne nd where r: "r = (t, ne, nd)"
    by (cases r)
  from render_counts [of P ff fi L E D t ne nd] render_no_throw [OF Inr] Inr r
  show ?thesis
    by (auto simp add: decode_message_render)
qed

text \<open>
  C4, as the code has it: \<open>generic_decode_next_message\<close>, of which both
  \<open>decode_next_message\<close> functions are instances, returns DecodeError exactly when the frame
  was parsed and \<open>decode_message\<close> threw; and \<open>decode_message\<close> throws exactly when the
  logtype has more Float and Integer placeholders than there are encoded variables (the
  index is out of range at one of them), more Dictionary placeholders than dictionary
  variables, an escape character in its last position, or \<open>decode_float_var\<close> or
  \<open>decode_integer_var\<close> throws on an encoded variable at its placeholder.
\<close>

theorem decode_error_iff:
  fixes ff fi :: "'v::len word \<Rightarrow> byte list option"
  shows "(fst (generic_decode_next_message P ff fi reader) = Inl IRErrorCode_Decode_Error
      \<longleftrightarrow> (\<exists>logtype encoded_vars dict_vars timestamp reader'.
             parse_frame P reader = (Inr (logtype, encoded_vars, dict_vars, timestamp), reader')
             \<and> (length encoded_vars < encoded_placeholders P logtype
                \<or> length dict_vars < dictionary_placeholders P logtype
                \<or> trailing_escape P logtype
                \<or> variable_decoding_throws P ff fi (encoded_placeholder_list P logtype)
                     encoded_vars)))
   \<and> ((\<exists>e. decode_message P ff fi L E D = Inl e)
      \<longleftrightarrow> length E < encoded_placeholders P L \<or> length D < dictionary_placeholders P L
          \<or> trailing_escape P L
          \<or> variable_decoding_throws P ff fi (encoded_placeholder_list P L) E)"
proof (intro conjI)
  let ?frame = "parse_frame P reader
      :: (IRErrorCode + byte list \<times> 'v word list \<times> byte list list \<times> epoch_time_ms_t)
           \<times> ReaderInterface"
  show "fst (generic_decode_next_message P ff fi reader) = Inl IRErrorCode_Decode_Error
      \<longleftrightarrow> (\<exists>logtype encoded_vars dict_vars timestamp reader'.
             parse_frame P reader = (Inr (logtype, encoded_vars, dict_vars, timestamp), reader')
             \<and> (length encoded_vars < encoded_placeholders P logtype
                \<or> length dict_vars < dictionary_placeholders P logtype
                \<or> trailing_escape P logtype
                \<or> variable_decoding_throws P ff fi (encoded_placeholder_list P logtype)
                     encoded_vars))"
  proof (cases ?frame)
    case (Pair res reader')
    show ?thesis
    proof (cases res)
      case (Inl e)
      with Pair have pf: "?frame = (Inl e, reader')"
        by simp
      from parse_frame_codes [OF pf] show ?thesis
        by (simp add: generic_decode_next_message_def pf)
    next
      case (Inr frame)
      obtain logtype encoded_vars dict_vars timestamp
        where "frame = (logtype, encoded_vars, dict_vars, timestamp)"
        by (cases frame)
      with Pair Inr have pf: "?frame = (Inr (logtype, encoded_vars, dict_vars, timestamp), reader')"
        by simp
      show ?thesis
        using decode_message_throws_iff [of P ff fi logtype encoded_vars dict_vars]
        by (auto simp add: generic_decode_next_message_def pf split: sum.splits)
    qed
  qed
  show "(\<exists>e. decode_message P ff fi L E D = Inl e)
      \<longleftrightarrow> length E < encoded_placeholders P L \<or> length D < dictionary_placeholders P L
          \<or> trailing_escape P L
          \<or> variable_decoding_throws P ff fi (encoded_placeholder_list P L) E"
    by (rule decode_message_throws_iff)
qed

theorem decode_error_iff_witness:
  "parse_frame example_protocol
       \<lparr>buf = [0x18, 0x00, 0x00, 0x00, 0x2A, 0x21, 0x02, 0x12, 0x12, 0x31, 0x00], pos = 0\<rparr>
     = (Inr ([0x12, 0x12], [42 :: four_byte_encoded_variable_t], [], 0),
        \<lparr>buf = [0x18, 0x00, 0x00, 0x00, 0x2A, 0x21, 0x02, 0x12, 0x12, 0x31, 0x00], pos = 11\<rparr>)
   \<and> length [42 :: four_byte_encoded_variable_t] < encoded_placeholders example_protocol [0x12, 0x12]
   \<and> fst (generic_decode_next_message example_protocol
         (example_decode_var :: four_byte_encoded_variable_t \<Rightarrow> byte list option)
         example_decode_var
         \<lparr>buf = [0x18, 0x00, 0x00, 0x00, 0x2A, 0x21, 0x02, 0x12, 0x12, 0x31, 0x00], pos = 0\<rparr>)
       = Inl IRErrorCode_Decode_Error
   \<and> variable_decoding_throws example_protocol
         (throwing_decode_var :: four_byte_encoded_variable_t \<Rightarrow> byte list option)
         throwing_decode_var (encoded_placeholder_list example_protocol [0x12]) [1]
   \<and> (\<exists>e. decode_message example_protocol
         (throwing_decode_var :: four_byte_encoded_variable_t \<Rightarrow> byte list option)
         throwing_decode_var [0x12] [1] [] = Inl e)"
proof -
  let ?R = "\<lparr>buf = [0x18, 0x00, 0x00, 0x00, 0x2A, 0x21, 0x02, 0x12, 0x12, 0x31, 0x00], pos = 0\<rparr>"
  let ?f = "example_decode_var :: four_byte_encoded_variable_t \<Rightarrow> byte list option"
  let ?g = "throwing_decode_var :: four_byte_encoded_variable_t \<Rightarrow> byte list option"
  have frame: "parse_frame example_protocol ?R
      = (Inr ([0x12, 0x12], [42 :: four_byte_encoded_variable_t], [], 0),
         \<lparr>buf = [0x18, 0x00, 0x00, 0x00, 0x2A, 0x21, 0x02, 0x12, 0x12, 0x31, 0x00], pos = 11\<rparr>)"
    by code_simp
  have few: "length [42 :: four_byte_encoded_variable_t]
      < encoded_placeholders example_protocol [0x12, 0x12]"
    by (simp add: example_protocol_def)
  have throws: "variable_decoding_throws example_protocol ?g ?g
      (encoded_placeholder_list example_protocol [0x12]) [1]"
    by (simp add: example_protocol_def throwing_decode_var_def)
  from decode_error_iff [of example_protocol ?f ?f ?R] frame few
  have error: "fst (generic_decode_next_message example_protocol ?f ?f ?R)
      = Inl IRErrorCode_Decode_Error"
    by blast
  from decode_error_iff [of example_protocol ?g ?g _ "[0x12]" "[1]" "[]"] throws
  have "\<exists>e. decode_message example_protocol ?g ?g [0x12] [1] [] = Inl e"
    by blast
  with frame few error throws show ?thesis
    by blast
qed

text \<open>
  C4 as stated fails: with a \<open>decode_integer_var\<close> that throws, a frame with one encoded
  variable and one Integer placeholder gives DecodeError although no index is out of range
  and no escape character is last.
\<close>

lemma throwing_frame:
  "parse_frame example_protocol
       \<lparr>buf = [0x18, 0x00, 0x00, 0x00, 0x01, 0x21, 0x01, 0x12, 0x31, 0x00], pos = 0\<rparr>
     = (Inr ([0x12], [1 :: four_byte_encoded_variable_t], [], 0),
        \<lparr>buf = [0x18, 0x00, 0x00, 0x00, 0x01, 0x21, 0x01, 0x12, 0x31, 0x00], pos = 10\<rparr>)"
  by code_simp

lemma throwing_message:
  "decode_message example_protocol
       (throwing_decode_var :: four_byte_encoded_variable_t \<Rightarrow> byte list option)
       throwing_decode_var [0x12] [1] []
     = Inl VariableDecodingFailure"
  by code_simp

theorem decode_error_iff_counterexample:
  "parse_frame example_protocol
       \<lparr>buf = [0x18, 0x00, 0x00, 0x00, 0x01, 0x21, 0x01, 0x12, 0x31, 0x00], pos = 0\<rparr>
     = (Inr ([0x12], [1 :: four_byte_encoded_variable_t], [], 0),
        \<lparr>buf = [0x18, 0x00, 0x00, 0x00, 0x01, 0x21, 0x01, 0x12, 0x31, 0x00], pos = 10\<rparr>)
   \<and> \<not> length [1 :: four_byte_encoded_variable_t] < encoded_placeholders example_protocol [0x12]
   \<and> \<not> length ([] :: byte list list) < dictionary_placeholders example_protocol [0x12]
   \<and> \<not> trailing_escape example_protocol [0x12]
   \<and> decode_message example_protocol
         (throwing_decode_var :: four_byte_encoded_variable_t \<Rightarrow> byte list option)
         throwing_decode_var [0x12] [1] []
       = Inl VariableDecodingFailure
   \<and> generic_decode_next_message example_protocol
         (throwing_decode_var :: four_byte_encoded_variable_t \<Rightarrow> byte list option)
         throwing_decode_var
         \<lparr>buf = [0x18, 0x00, 0x00, 0x00, 0x01, 0x21, 0x01, 0x12, 0x31, 0x00], pos = 0\<rparr>
       = (Inl IRErrorCode_Decode_Error,
          \<lparr>buf = [0x18, 0x00, 0x00, 0x00, 0x01, 0x21, 0x01, 0x12, 0x31, 0x00], pos = 10\<rparr>)"
proof -
  have counts: "\<not> length [1 :: four_byte_encoded_variable_t]
        < encoded_placeholders example_protocol [0x12]"
    "\<not> length ([] :: byte list list) < dictionary_placeholders example_protocol [0x12]"
    "\<not> trailing_escape example_protocol [0x12]"
    by (simp_all add: example_protocol_def)
  have "generic_decode_next_message example_protocol
         (throwing_decode_var :: four_byte_encoded_variable_t \<Rightarrow> byte list option)
         throwing_decode_var
         \<lparr>buf = [0x18, 0x00, 0x00, 0x00, 0x01, 0x21, 0x01, 0x12, 0x31, 0x00], pos = 0\<rparr>
       = (Inl IRErrorCode_Decode_Error,
          \<lparr>buf = [0x18, 0x00, 0x00, 0x00, 0x01, 0x21, 0x01, 0x12, 0x31, 0x00], pos = 10\<rparr>)"
    by (simp add: throwing_frame throwing_message generic_decode_next_message_def)
  with throwing_frame throwing_message counts show ?thesis
    by blast
qed

section \<open>Surplus variables\<close>

text \<open>
  C10: when \<open>decode_message\<close> succeeds on a logtype and two vectors, it succeeds with the
  same message on the vectors with any elements appended.
\<close>

theorem decode_message_surplus:
  assumes "decode_message P ff fi L E D = Inr m"
  shows "decode_message P ff fi L (E @ E') (D @ D') = Inr m"
proof -
  from assms obtain ne nd where "render P ff fi L E D = Inr (m, ne, nd)"
    by (auto simp add: decode_message_render split: sum.splits)
  then have "render P ff fi L (E @ E') (D @ D') = Inr (m, ne, nd)"
    by (rule render_append)
  then show ?thesis
    by (simp add: decode_message_render)
qed

theorem decode_message_surplus_witness:
  "decode_message example_protocol example_decode_var example_decode_var
       [0x12] [42 :: four_byte_encoded_variable_t] [] = Inr [0x2A]
   \<and> decode_message example_protocol example_decode_var example_decode_var
       [0x12] ([42 :: four_byte_encoded_variable_t] @ [7]) ([] @ [[0x01]]) = Inr [0x2A]"
proof -
  have e: "decode_message example_protocol example_decode_var example_decode_var
       [0x12] [42 :: four_byte_encoded_variable_t] [] = Inr [0x2A]"
    by code_simp
  from decode_message_surplus [OF e, of "[7]" "[[0x01]]"] e show ?thesis
    by blast
qed

section \<open>Escaped logtypes\<close>

text \<open>
  C7: for a logtype made of units, each an ordinary character (no placeholder, no escape
  character) or the escape character followed by a placeholder or an escape character,
  \<open>decode_message\<close> returns the units' characters with the leading escape characters
  removed, and the loop ends with both variable indices at zero. The escape character is
  none of the three placeholders.
\<close>

theorem decode_message_fully_escaped:
  assumes "\<not> is_placeholder P (cVariablePlaceholderEscapeCharacter P)"
    and "list_all (unit_ok P) us"
  shows "decode_message P ff fi (concat (map (unit_bytes P) us)) E D = Inr (map unit_text us)
       \<and> (\<exists>l. decode_message_loop P ff fi (concat (map (unit_bytes P) us)) E D 0
                 \<lparr>next_static_text_begin_pos = 0, dictionary_vars_ix = 0,
                  encoded_vars_ix = 0, message = []\<rparr> = Inr l
              \<and> encoded_vars_ix l = 0 \<and> dictionary_vars_ix l = 0)"
  using render_fully_escaped [OF assms, of ff fi E D]
    decode_message_loop_consumed [of P ff fi "concat (map (unit_bytes P) us)" E D]
  by (auto simp add: decode_message_render split: sum.splits)

theorem decode_message_fully_escaped_witness:
  "\<not> is_placeholder example_protocol (cVariablePlaceholderEscapeCharacter example_protocol)
   \<and> list_all (unit_ok example_protocol) [Ordinary 0x41, Escaped 0x12, Ordinary 0x42]
   \<and> concat (map (unit_bytes example_protocol) [Ordinary 0x41, Escaped 0x12, Ordinary 0x42])
       = [0x41, 0x5C, 0x12, 0x42]
   \<and> decode_message example_protocol example_decode_var example_decode_var
         [0x41, 0x5C, 0x12, 0x42] [42 :: four_byte_encoded_variable_t] [[0x78]]
       = Inr [0x41, 0x12, 0x42]"
proof -
  have h: "\<not> is_placeholder example_protocol (cVariablePlaceholderEscapeCharacter example_protocol)"
    "list_all (unit_ok example_protocol) [Ordinary 0x41, Escaped 0x12, Ordinary 0x42]"
    by (simp_all add: is_placeholder_def example_protocol_def)
  have c: "concat (map (unit_bytes example_protocol) [Ordinary 0x41, Escaped 0x12, Ordinary 0x42])
       = [0x41, 0x5C, 0x12, 0x42]"
    by (simp add: example_protocol_def)
  from decode_message_fully_escaped [OF h, of example_decode_var example_decode_var
      "[42 :: four_byte_encoded_variable_t]" "[[0x78]]"]
  have "decode_message example_protocol example_decode_var example_decode_var
         [0x41, 0x5C, 0x12, 0x42] [42 :: four_byte_encoded_variable_t] [[0x78]]
       = Inr [0x41, 0x12, 0x42]"
    unfolding c by simp
  with h c show ?thesis
    by blast
qed

section \<open>Variables consumed\<close>

text \<open>
  C1, as the code has it: when \<open>decode_message\<close> succeeds, the loop ends with the index of
  the encoded variables equal to the number of Float and Integer placeholders of the logtype
  and the index of the dictionary variables equal to the number of its Dictionary
  placeholders; the two numbers are at most the lengths of the two vectors, and the
  variables beyond them are not read: with any others in their place, or none, the message
  is the same.
\<close>

theorem decode_message_consumes:
  assumes "decode_message P ff fi L E D = Inr m"
  shows "(\<exists>l. decode_message_loop P ff fi L E D 0
                \<lparr>next_static_text_begin_pos = 0, dictionary_vars_ix = 0,
                 encoded_vars_ix = 0, message = []\<rparr> = Inr l
           \<and> encoded_vars_ix l = encoded_placeholders P L
           \<and> dictionary_vars_ix l = dictionary_placeholders P L
           \<and> encoded_vars_ix l \<le> length E
           \<and> dictionary_vars_ix l \<le> length D)
       \<and> (\<forall>E' D'. decode_message P ff fi L
                      (take (encoded_placeholders P L) E @ E')
                      (take (dictionary_placeholders P L) D @ D') = Inr m)"
proof -
  from assms obtain ne nd where r: "render P ff fi L E D = Inr (m, ne, nd)"
    by (auto simp add: decode_message_render split: sum.splits)
  note c = render_counts [OF r]
  have "\<exists>l. decode_message_loop P ff fi L E D 0
                \<lparr>next_static_text_begin_pos = 0, dictionary_vars_ix = 0,
                 encoded_vars_ix = 0, message = []\<rparr> = Inr l
           \<and> encoded_vars_ix l = encoded_placeholders P L
           \<and> dictionary_vars_ix l = dictionary_placeholders P L
           \<and> encoded_vars_ix l \<le> length E
           \<and> dictionary_vars_ix l \<le> length D"
    using c r decode_message_loop_consumed [of P ff fi L E D]
    by (auto split: sum.splits)
  moreover have "decode_message P ff fi L
                      (take (encoded_placeholders P L) E @ E')
                      (take (dictionary_placeholders P L) D @ D') = Inr m" for E' D'
  proof -
    have "render P ff fi L (take ne E) (take nd D) = Inr (m, ne, nd)"
      using r by (rule render_take)
    then have "render P ff fi L (take ne E @ E') (take nd D @ D') = Inr (m, ne, nd)"
      by (rule render_append)
    with c show ?thesis
      by (simp add: decode_message_render)
  qed
  ultimately show ?thesis
    by blast
qed

theorem decode_message_consumes_witness:
  "decode_message example_protocol
       (example_decode_var :: four_byte_encoded_variable_t \<Rightarrow> byte list option)
       example_decode_var
       [0x5B, 0x13, 0x5D, 0x20, 0x13] [] [[0x57, 0x41, 0x52, 0x4E], [0x68, 0x65, 0x6C, 0x6C, 0x6F]]
     = Inr [0x5B, 0x57, 0x41, 0x52, 0x4E, 0x5D, 0x20, 0x68, 0x65, 0x6C, 0x6C, 0x6F]
   \<and> encoded_placeholders example_protocol [0x5B, 0x13, 0x5D, 0x20, 0x13] = 0
   \<and> dictionary_placeholders example_protocol [0x5B, 0x13, 0x5D, 0x20, 0x13] = 2
   \<and> (\<exists>l. decode_message_loop example_protocol
               (example_decode_var :: four_byte_encoded_variable_t \<Rightarrow> byte list option)
               example_decode_var
               [0x5B, 0x13, 0x5D, 0x20, 0x13] []
               [[0x57, 0x41, 0x52, 0x4E], [0x68, 0x65, 0x6C, 0x6C, 0x6F]] 0
               \<lparr>next_static_text_begin_pos = 0, dictionary_vars_ix = 0,
                encoded_vars_ix = 0, message = []\<rparr> = Inr l
          \<and> encoded_vars_ix l = 0 \<and> dictionary_vars_ix l = 2)
   \<and> decode_message example_protocol
       (example_decode_var :: four_byte_encoded_variable_t \<Rightarrow> byte list option)
       example_decode_var
       [0x5B, 0x13, 0x5D, 0x20, 0x13] [7]
       [[0x57, 0x41, 0x52, 0x4E], [0x68, 0x65, 0x6C, 0x6C, 0x6F], [0x21]]
     = Inr [0x5B, 0x57, 0x41, 0x52, 0x4E, 0x5D, 0x20, 0x68, 0x65, 0x6C, 0x6C, 0x6F]"
proof -
  let ?f = "example_decode_var :: four_byte_encoded_variable_t \<Rightarrow> byte list option"
  let ?L = "[0x5B, 0x13, 0x5D, 0x20, 0x13] :: byte list"
  let ?D = "[[0x57, 0x41, 0x52, 0x4E], [0x68, 0x65, 0x6C, 0x6C, 0x6F]] :: byte list list"
  let ?m = "[0x5B, 0x57, 0x41, 0x52, 0x4E, 0x5D, 0x20, 0x68, 0x65, 0x6C, 0x6C, 0x6F] :: byte list"
  have e: "decode_message example_protocol ?f ?f ?L [] ?D = Inr ?m"
    by code_simp
  have n: "encoded_placeholders example_protocol ?L = 0"
    "dictionary_placeholders example_protocol ?L = 2"
    by (simp_all add: example_protocol_def)
  note inst = decode_message_consumes [OF e]
  from inst n have loop: "\<exists>l. decode_message_loop example_protocol ?f ?f ?L [] ?D 0
               \<lparr>next_static_text_begin_pos = 0, dictionary_vars_ix = 0,
                encoded_vars_ix = 0, message = []\<rparr> = Inr l
          \<and> encoded_vars_ix l = 0 \<and> dictionary_vars_ix l = 2"
    by (simp only:) blast
  from inst have "decode_message example_protocol ?f ?f ?L
      (take (encoded_placeholders example_protocol ?L) [] @ [7])
      (take (dictionary_placeholders example_protocol ?L) ?D @ [[0x21]]) = Inr ?m"
    by blast
  then have more: "decode_message example_protocol ?f ?f ?L [7]
      [[0x57, 0x41, 0x52, 0x4E], [0x68, 0x65, 0x6C, 0x6C, 0x6F], [0x21]] = Inr ?m"
    unfolding n by simp
  from e n loop more show ?thesis
    by blast
qed

text \<open>
  C1 as stated fails: on the logtype \<open>A\<close>, with one encoded and one dictionary variable,
  \<open>decode_message\<close> succeeds and both indices are zero at the end.
\<close>

theorem decode_message_consumes_counterexample:
  "decode_message example_protocol
       (example_decode_var :: four_byte_encoded_variable_t \<Rightarrow> byte list option)
       example_decode_var [0x41] [42] [[0x78]]
     = Inr [0x41]
   \<and> decode_message_loop example_protocol
       (example_decode_var :: four_byte_encoded_variable_t \<Rightarrow> byte list option)
       example_decode_var [0x41] [42] [[0x78]] 0
       \<lparr>next_static_text_begin_pos = 0, dictionary_vars_ix = 0, encoded_vars_ix = 0,
        message = []\<rparr>
     = Inr \<lparr>next_static_text_begin_pos = 0, dictionary_vars_ix = 0, encoded_vars_ix = 0,
            message = []\<rparr>
   \<and> (0 :: nat) \<noteq> length [42 :: four_byte_encoded_variable_t]
   \<and> (0 :: nat) \<noteq> length [[0x78 :: byte]]"
  by code_simp

end
